theory Spec2Isabelle
  imports
    Complex_Main
    "HOL-Library.Word"
    "HOL-Library.AList"
    "HOL-Library.Char_ord"
    "HOL-Library.List_Lexorder"
begin

section \<open>Data model of Arks/DistanceEst.h\<close>

text \<open>
  C++ \<open>int\<close> and \<open>unsigned\<close> are 32-bit words. Both share the representation
  \<open>32 word\<close>; an \<open>int\<close> is read with \<open>sint\<close> and compared with \<open><s\<close>, an
  \<open>unsigned\<close> is read with \<open>unat\<close> and compared with \<open><\<close>. Arithmetic on either
  wraps modulo \<open>2 ^ 32\<close>. The conversion from \<open>int\<close> to \<open>unsigned\<close> keeps the bits.
\<close>

type_synonym c_int = "32 word"
type_synonym c_unsigned = "32 word"

definition to_unsigned :: "c_int \<Rightarrow> c_unsigned" where
  "to_unsigned x = ucast x"

text \<open>
  A \<open>double\<close> is modelled by a rational number and the arithmetic on \<open>double\<close> by the
  exact arithmetic on rational numbers: the rounding of the quotient of two counters, of
  the constants \<open>0.01\<close> and \<open>0.99\<close> and of the interpolation is left out.
\<close>

type_synonym c_double = rat

text \<open>
  The failures of the code, as values: \<open>std::out_of_range\<close> thrown by \<open>at()\<close> on a
  missing key, a failing \<open>assert\<close>, a quantile of an empty range, an iterator moved
  past \<open>end()\<close>, a \<open>double\<close> outside the range of \<open>int\<close> converted to \<open>int\<close>, a
  division by a zero counter (a NaN or infinite map key), and a product on \<open>int\<close> that
  leaves the range of \<open>int\<close> (undefined in C++).
\<close>

datatype error =
    OutOfRange
  | AssertionFailed
  | EmptyQuantile
  | IteratorPastEnd
  | IntConversion
  | NotANumber
  | SignedOverflow

text \<open>
  Modelled from the spec: \<open>ARCS::ArcsParams\<close> (Arks/Arks.h is not part of the sources),
  the thresholds \<open>min_mult\<close>, \<open>max_mult\<close>, \<open>min_reads\<close>, \<open>end_length\<close> (integers) and
  \<open>dist_bin_size\<close> (the half-width of the window in similarity space).
\<close>

record ArcsParams =
  min_reads :: c_int
  min_mult :: c_int
  max_mult :: c_int
  end_length :: c_int
  dist_bin_size :: c_double

text \<open>
  Modelled from the spec: the map types of Arks/Arks.h (not part of the sources).
  \<open>ARCS::CI\<close> is a contig identifier with a head flag. \<open>ARCS::ScafMap\<close> maps a contig
  end to a number of read pairs, \<open>ARCS::IndexMap\<close> maps a barcode to its
  \<open>ScafMap\<close>. The loops of the code visit the entries of a map one after the other,
  so a map is an association list (visited from left to right) whose keys are distinct.
\<close>

type_synonym CI = "string \<times> bool"
type_synonym ScafMap = "(CI \<times> c_int) list"
type_synonym IndexMap = "(string \<times> ScafMap) list"
type_synonym ContigToLength = "(string \<times> c_unsigned) list"
type_synonym IndexMultMap = "(string \<times> c_int) list"

text \<open>
  The \<open>unsigned\<close> counters of a \<open>DistSample\<close> and a \<open>PairRecord\<close> start at zero and
  grow by one step at a time, at most once per barcode, so that they stay below the
  number of barcodes (lemmas \<open>calcDistSamples_counters_bounded\<close> and
  \<open>countBarcodes_counters_bounded\<close>); they are natural numbers. The two records
  share the field names \<open>barcodesUnion\<close> and \<open>barcodesIntersect\<close>, which are
  written with the name of their record in front.
\<close>

record DistanceEstimate =
  minDist :: c_int
  maxDist :: c_int
  jaccard :: c_double

definition DistanceEstimate_init :: DistanceEstimate where
  "DistanceEstimate_init = \<lparr>minDist = 0, maxDist = 0, jaccard = 0\<rparr>"

record DistSample =
  distance :: c_unsigned
  barcodesHead :: nat
  barcodesTail :: nat
  barcodesUnion :: nat
  barcodesIntersect :: nat

definition DistSample_init :: DistSample where
  "DistSample_init =
     \<lparr>distance = - 1, barcodesHead = 0, barcodesTail = 0,
      DistSample.barcodesUnion = 0, DistSample.barcodesIntersect = 0\<rparr>"

type_synonym DistSampleMap = "(string \<times> DistSample) list"

text \<open>
  \<open>JaccardToDist\<close> is a \<open>std::map\<close>: its entries are ordered by key and no two entries
  have the same key.
\<close>

type_synonym JaccardToDist = "(c_double \<times> DistSample) list"

text \<open>
  Modelled from the spec: \<open>ARCS::PairRecord\<close> (Arks/Arks.h is not part of the sources),
  the shared-barcode count of one orientation of a contig pair, the distinct-barcode
  counts of its two ends and their union. A default-constructed record holds zeros.
\<close>

record PairRecord =
  barcodesIntersect :: nat
  barcodes1 :: nat
  barcodes2 :: nat
  barcodesUnion :: nat

definition PairRecord_init :: PairRecord where
  "PairRecord_init =
     \<lparr>PairRecord.barcodesIntersect = 0, barcodes1 = 0, barcodes2 = 0,
      PairRecord.barcodesUnion = 0\<rparr>"

section \<open>The eligibility test\<close>

text \<open>
  The product \<open>2 * x\<close> on \<open>int\<close>. It is defined where the result is in the range
  of \<open>int\<close>, that is for \<open>x\<close> from \<open>- 2 ^ 30\<close> to \<open>2 ^ 30 - 1\<close>; outside, the
  behaviour of the program is undefined.
\<close>

definition int_twice :: "c_int \<Rightarrow> error + c_int" where
  "int_twice x =
     (if - (2 ^ 30) \<le> sint x \<and> sint x < 2 ^ 30 then Inr (2 * x) else Inl SignedOverflow)"

text \<open>
  \<open>validBarcodeMapping\<close>: the first test returns before the product is computed; the
  product \<open>2 * params.end_length\<close> is computed on \<open>int\<close> and converted to
  \<open>unsigned\<close> afterwards.
\<close>

definition validBarcodeMapping :: "c_unsigned \<Rightarrow> c_int \<Rightarrow> ArcsParams \<Rightarrow> error + bool" where
  "validBarcodeMapping contigLength pairs params =
     (if pairs <s min_reads params then Inr False
      else
        (case int_twice (end_length params) of
           Inl e \<Rightarrow> Inl e
         | Inr twice \<Rightarrow>
             if contigLength < to_unsigned twice then Inr False
             else Inr True))"

section \<open>The sample builder\<close>

text \<open>
  \<open>foundOther\<close>: the other end of the contig is a key of the barcode's map and has at
  least \<open>min_reads\<close> read pairs.
\<close>

definition foundOther :: "ArcsParams \<Rightarrow> ScafMap \<Rightarrow> CI \<Rightarrow> bool" where
  "foundOther params contigToCount otherEnd =
     (case map_of contigToCount otherEnd of
        None \<Rightarrow> False
      | Some n \<Rightarrow> min_reads params \<le>s n)"

text \<open>
  The updates of one \<open>DistSample\<close> in the body of the inner loop: the distance, the
  head or tail counter, and the union and intersection counters.
\<close>

definition countSample :: "bool \<Rightarrow> bool \<Rightarrow> c_unsigned \<Rightarrow> DistSample \<Rightarrow> DistSample" where
  "countSample isHead found d distSample =
     (let distSample = distSample\<lparr>distance := d\<rparr>;
          distSample =
            (if isHead then distSample\<lparr>barcodesHead := barcodesHead distSample + 1\<rparr>
             else distSample\<lparr>barcodesTail := barcodesTail distSample + 1\<rparr>)
      in
        if found \<and> isHead then
          distSample\<lparr>DistSample.barcodesIntersect := DistSample.barcodesIntersect distSample + 1,
            DistSample.barcodesUnion := DistSample.barcodesUnion distSample + 1\<rparr>
        else if \<not> found then
          distSample\<lparr>DistSample.barcodesUnion := DistSample.barcodesUnion distSample + 1\<rparr>
        else distSample)"

text \<open>
  \<open>distSamples[contigID]\<close> reads the sample of a contig and creates a
  default-constructed one where the contig has none.
\<close>

definition sampleOf :: "DistSampleMap \<Rightarrow> string \<Rightarrow> DistSample" where
  "sampleOf distSamples contigID =
     (case map_of distSamples contigID of None \<Rightarrow> DistSample_init | Some s \<Rightarrow> s)"

text \<open>The body of the inner loop of \<open>calcDistSamples\<close>, for one entry of the barcode's map.\<close>

definition sampleEntry ::
  "ContigToLength \<Rightarrow> ArcsParams \<Rightarrow> ScafMap \<Rightarrow> CI \<times> c_int \<Rightarrow> DistSampleMap
   \<Rightarrow> error + DistSampleMap"
where
  "sampleEntry contigToLength params contigToCount entry distSamples =
     (case entry of ((contigID, isHead), readPairs) \<Rightarrow>
        if readPairs <s min_reads params then Inr distSamples
        else
          (case map_of contigToLength contigID of
             None \<Rightarrow> Inl OutOfRange
           | Some l \<Rightarrow>
               if l < to_unsigned 2 * to_unsigned (end_length params) then Inr distSamples
               else
                 Inr (AList.update contigID
                        (countSample isHead
                           (foundOther params contigToCount (contigID, \<not> isHead))
                           (l - to_unsigned (2 * end_length params))
                           (sampleOf distSamples contigID))
                        distSamples)))"

text \<open>The inner loop, over the entries of one barcode's map.\<close>

fun sampleContigs ::
  "ContigToLength \<Rightarrow> ArcsParams \<Rightarrow> ScafMap \<Rightarrow> ScafMap \<Rightarrow> DistSampleMap
   \<Rightarrow> error + DistSampleMap"
where
  "sampleContigs contigToLength params contigToCount [] distSamples = Inr distSamples"
| "sampleContigs contigToLength params contigToCount (entry # rest) distSamples =
     (case sampleEntry contigToLength params contigToCount entry distSamples of
        Inl e \<Rightarrow> Inl e
      | Inr distSamples' \<Rightarrow> sampleContigs contigToLength params contigToCount rest distSamples')"

text \<open>\<open>calcDistSamples\<close>: the outer loop, over the barcodes.\<close>

fun calcDistSamples ::
  "IndexMap \<Rightarrow> ContigToLength \<Rightarrow> IndexMultMap \<Rightarrow> ArcsParams \<Rightarrow> DistSampleMap
   \<Rightarrow> error + DistSampleMap"
where
  "calcDistSamples [] contigToLength indexMultMap params distSamples = Inr distSamples"
| "calcDistSamples ((index, contigToCount) # rest) contigToLength indexMultMap params distSamples =
     (case map_of indexMultMap index of
        None \<Rightarrow> Inl OutOfRange
      | Some indexMult \<Rightarrow>
          if indexMult <s min_mult params \<or> max_mult params <s indexMult then
            calcDistSamples rest contigToLength indexMultMap params distSamples
          else
            (case sampleContigs contigToLength params contigToCount contigToCount distSamples of
               Inl e \<Rightarrow> Inl e
             | Inr distSamples' \<Rightarrow>
                 calcDistSamples rest contigToLength indexMultMap params distSamples'))"


section \<open>The calibration index\<close>

text \<open>
  \<open>std::map::insert\<close> on a \<open>JaccardToDist\<close>: the entry goes to its place in the order
  of the keys; where the key is already present the map is left as it is.
\<close>

fun map_insert :: "c_double \<times> DistSample \<Rightarrow> JaccardToDist \<Rightarrow> JaccardToDist" where
  "map_insert (k, v) [] = [(k, v)]"
| "map_insert (k, v) ((k', v') # rest) =
     (if k < k' then (k, v) # (k', v') # rest
      else if k = k' then (k', v') # rest
      else (k', v') # map_insert (k, v) rest)"

text \<open>
  The key that \<open>buildJaccardToDist\<close> computes for a sample,
  \<open>double(sample.barcodesIntersect) / sample.barcodesUnion\<close>.
\<close>

definition jaccardOf :: "DistSample \<Rightarrow> c_double" where
  "jaccardOf sample =
     of_nat (DistSample.barcodesIntersect sample) / of_nat (DistSample.barcodesUnion sample)"

text \<open>
  \<open>buildJaccardToDist\<close>, over the entries of \<open>distSamples\<close>. A sample whose
  \<open>barcodesUnion\<close> is zero gives no number to order the map by.
\<close>

fun buildJaccardToDist :: "DistSampleMap \<Rightarrow> JaccardToDist \<Rightarrow> error + JaccardToDist" where
  "buildJaccardToDist [] jaccardToDist = Inr jaccardToDist"
| "buildJaccardToDist ((contigID, sample) # rest) jaccardToDist =
     (if DistSample.barcodesUnion sample = 0 then Inl NotANumber
      else buildJaccardToDist rest (map_insert (jaccardOf sample, sample) jaccardToDist))"

section \<open>The pair statistics builder\<close>

text \<open>
  Modelled from the spec: the types of Arks/Arks.h (not part of the sources) that
  \<open>calcContigPairBarcodeStats\<close> uses. \<open>ARCS::ContigPair\<close> is a pair of contig
  identifiers. \<open>ARCS::PairMap\<close> maps a contig pair to an array of four records, one per
  orientation \<open>HH\<close>, \<open>HT\<close>, \<open>TH\<close>, \<open>TT\<close> (the positions \<open>0\<close> to \<open>3\<close>,
  \<open>NUM_ORIENTATIONS\<close> being \<open>4\<close>); the array is a list of four records.
\<close>

type_synonym ContigPair = "string \<times> string"
type_synonym PairRecords = "PairRecord list"
type_synonym PairMap = "(ContigPair \<times> PairRecords) list"

definition NUM_ORIENTATIONS :: nat where
  "NUM_ORIENTATIONS = 4"

text \<open>The side table \<open>contigEndToBarcodeCount\<close>, of type \<open>size_t\<close> counters.\<close>

type_synonym ContigEndToBarcodeCount = "(CI \<times> nat) list"

text \<open>
  \<open>contigEndToBarcodeCount[key]++\<close>: a missing key is created with the value zero
  before the increment.
\<close>

definition countEnd :: "CI \<Rightarrow> ContigEndToBarcodeCount \<Rightarrow> ContigEndToBarcodeCount" where
  "countEnd key contigEndToBarcodeCount =
     AList.update key
       ((case map_of contigEndToBarcodeCount key of None \<Rightarrow> 0 | Some n \<Rightarrow> n) + 1)
       contigEndToBarcodeCount"

text \<open>
  \<open>pmap[pair]\<close> reads the records of a pair; for a pair that is not a key it creates
  four default-constructed records.
\<close>

definition recordsOf :: "PairMap \<Rightarrow> ContigPair \<Rightarrow> PairRecords" where
  "recordsOf pmap pair =
     (case map_of pmap pair of
        None \<Rightarrow> replicate NUM_ORIENTATIONS PairRecord_init
      | Some records \<Rightarrow> records)"

text \<open>The position chosen by the chain of tests on \<open>head1\<close> and \<open>head2\<close>.\<close>

definition orientationOf :: "bool \<Rightarrow> bool \<Rightarrow> nat" where
  "orientationOf head1 head2 =
     (if head1 \<and> head2 then 0
      else if head1 \<and> \<not> head2 then 1
      else if \<not> head1 \<and> head2 then 2
      else 3)"

text \<open>
  The body of the innermost loop, for the end \<open>(id1, head1)\<close> of the middle loop and
  one entry of the barcode's map.
\<close>

definition countPair ::
  "ContigToLength \<Rightarrow> ArcsParams \<Rightarrow> CI \<Rightarrow> CI \<times> c_int \<Rightarrow> PairMap \<Rightarrow> error + PairMap"
where
  "countPair contigToLength params end1 entry2 pmap =
     (case end1 of (id1, head1) \<Rightarrow>
      case entry2 of ((id2, head2), pairs2) \<Rightarrow>
        (case map_of contigToLength id2 of
           None \<Rightarrow> Inl OutOfRange
         | Some length2 \<Rightarrow>
             (case validBarcodeMapping length2 pairs2 params of
                Inl e \<Rightarrow> Inl e
              | Inr valid \<Rightarrow>
                  if \<not> valid then Inr pmap
                  else if id1 > id2 then Inr pmap
                  else
                    let pair = (id1, id2);
                        pmap = (if map_of pmap pair = None
                                then AList.update pair
                                       (replicate NUM_ORIENTATIONS PairRecord_init) pmap
                                else pmap);
                        records = recordsOf pmap pair;
                        i = orientationOf head1 head2;
                        rec = records ! i
                    in Inr (AList.update pair
                              (records[i := rec\<lparr>PairRecord.barcodesIntersect :=
                                                PairRecord.barcodesIntersect rec + 1\<rparr>])
                              pmap))))"

text \<open>The innermost loop, over the entries \<open>endIt2\<close> of the barcode's map.\<close>

fun countPairs ::
  "ContigToLength \<Rightarrow> ArcsParams \<Rightarrow> CI \<Rightarrow> ScafMap \<Rightarrow> PairMap \<Rightarrow> error + PairMap"
where
  "countPairs contigToLength params end1 [] pmap = Inr pmap"
| "countPairs contigToLength params end1 (entry2 # rest) pmap =
     (case countPair contigToLength params end1 entry2 pmap of
        Inl e \<Rightarrow> Inl e
      | Inr pmap' \<Rightarrow> countPairs contigToLength params end1 rest pmap')"

text \<open>
  The middle loop, over the entries \<open>endIt1\<close> of the barcode's map
  \<open>contigEndToPairCount\<close>; the innermost loop runs over the whole map each time.
\<close>

fun countEnds ::
  "ContigToLength \<Rightarrow> ArcsParams \<Rightarrow> ScafMap \<Rightarrow> ScafMap
   \<Rightarrow> ContigEndToBarcodeCount \<times> PairMap \<Rightarrow> error + ContigEndToBarcodeCount \<times> PairMap"
where
  "countEnds contigToLength params contigEndToPairCount [] state = Inr state"
| "countEnds contigToLength params contigEndToPairCount (((id1, head1), pairs1) # rest)
     (contigEndToBarcodeCount, pmap) =
     (case map_of contigToLength id1 of
        None \<Rightarrow> Inl OutOfRange
      | Some length1 \<Rightarrow>
          (case validBarcodeMapping length1 pairs1 params of
             Inl e \<Rightarrow> Inl e
           | Inr valid \<Rightarrow>
               if \<not> valid then
                 countEnds contigToLength params contigEndToPairCount rest
                   (contigEndToBarcodeCount, pmap)
               else
                 let contigEndToBarcodeCount = countEnd (id1, head1) contigEndToBarcodeCount in
                 (case countPairs contigToLength params (id1, head1) contigEndToPairCount pmap of
                    Inl e \<Rightarrow> Inl e
                  | Inr pmap' \<Rightarrow>
                      countEnds contigToLength params contigEndToPairCount rest
                        (contigEndToBarcodeCount, pmap'))))"

text \<open>The outer loop of the scan, over the barcodes.\<close>

fun countBarcodes ::
  "IndexMap \<Rightarrow> IndexMultMap \<Rightarrow> ContigToLength \<Rightarrow> ArcsParams
   \<Rightarrow> ContigEndToBarcodeCount \<times> PairMap \<Rightarrow> error + ContigEndToBarcodeCount \<times> PairMap"
where
  "countBarcodes [] indexMultMap contigToLength params state = Inr state"
| "countBarcodes ((index, contigEndToPairCount) # rest) indexMultMap contigToLength params state =
     (case map_of indexMultMap index of
        None \<Rightarrow> Inl OutOfRange
      | Some indexMult \<Rightarrow>
          if indexMult <s min_mult params \<or> max_mult params <s indexMult then
            countBarcodes rest indexMultMap contigToLength params state
          else
            (case countEnds contigToLength params contigEndToPairCount contigEndToPairCount
                    state of
               Inl e \<Rightarrow> Inl e
             | Inr state' \<Rightarrow> countBarcodes rest indexMultMap contigToLength params state'))"

text \<open>
  The subtraction \<open>rec.barcodes1 + rec.barcodes2 - rec.barcodesIntersect\<close> on
  \<open>unsigned\<close>: below zero it wraps around.
\<close>

definition unsigned_minus :: "nat \<Rightarrow> nat \<Rightarrow> nat" where
  "unsigned_minus a b = (if b \<le> a then a - b else 2 ^ 32 - (b - a) mod 2 ^ 32)"

text \<open>
  The body of the second loop for the orientation \<open>i\<close> of the pair \<open>(id1, id2)\<close>. The
  flag \<open>ndebug\<close> says whether the program was compiled with \<open>NDEBUG\<close>, which removes
  the three \<open>assert\<close>s.
\<close>

definition completeRecord ::
  "bool \<Rightarrow> ContigEndToBarcodeCount \<Rightarrow> ContigPair \<Rightarrow> nat \<Rightarrow> PairRecords \<Rightarrow> error + PairRecords"
where
  "completeRecord ndebug contigEndToBarcodeCount pair i records =
     (case pair of (id1, id2) \<Rightarrow>
        if length records \<le> i then Inl OutOfRange
        else
          let rec = records ! i;
              tail1 = (id1, i = 0 \<or> i = 1);
              tail2 = (id2, i = 0 \<or> i = 2)
          in
          (case map_of contigEndToBarcodeCount tail1 of
             None \<Rightarrow> Inl OutOfRange
           | Some n1 \<Rightarrow>
               let rec = rec\<lparr>barcodes1 := n1\<rparr> in
               if \<not> ndebug \<and> \<not> 0 < barcodes1 rec then Inl AssertionFailed
               else
                 (case map_of contigEndToBarcodeCount tail2 of
                    None \<Rightarrow> Inl OutOfRange
                  | Some n2 \<Rightarrow>
                      let rec = rec\<lparr>barcodes2 := n2\<rparr> in
                      if \<not> ndebug \<and> \<not> 0 < barcodes2 rec then Inl AssertionFailed
                      else if \<not> ndebug
                          \<and> \<not> PairRecord.barcodesIntersect rec \<le> barcodes1 rec + barcodes2 rec
                      then Inl AssertionFailed
                      else
                        Inr (records[i := rec\<lparr>PairRecord.barcodesUnion :=
                               unsigned_minus (barcodes1 rec + barcodes2 rec)
                                 (PairRecord.barcodesIntersect rec)\<rparr>]))))"

text \<open>The loop over the orientations of one pair, from \<open>HH\<close> up to \<open>NUM_ORIENTATIONS\<close>.\<close>

fun completeOrientations ::
  "bool \<Rightarrow> ContigEndToBarcodeCount \<Rightarrow> ContigPair \<Rightarrow> nat list \<Rightarrow> PairRecords
   \<Rightarrow> error + PairRecords"
where
  "completeOrientations ndebug contigEndToBarcodeCount pair [] records = Inr records"
| "completeOrientations ndebug contigEndToBarcodeCount pair (i # rest) records =
     (case completeRecord ndebug contigEndToBarcodeCount pair i records of
        Inl e \<Rightarrow> Inl e
      | Inr records' \<Rightarrow>
          completeOrientations ndebug contigEndToBarcodeCount pair rest records')"

text \<open>The second loop, over the entries of \<open>pmap\<close>.\<close>

fun completePairs ::
  "bool \<Rightarrow> ContigEndToBarcodeCount \<Rightarrow> PairMap \<Rightarrow> error + PairMap"
where
  "completePairs ndebug contigEndToBarcodeCount [] = Inr []"
| "completePairs ndebug contigEndToBarcodeCount ((pair, records) # rest) =
     (case completeOrientations ndebug contigEndToBarcodeCount pair [0 ..< NUM_ORIENTATIONS]
             records of
        Inl e \<Rightarrow> Inl e
      | Inr records' \<Rightarrow>
          (case completePairs ndebug contigEndToBarcodeCount rest of
             Inl e \<Rightarrow> Inl e
           | Inr rest' \<Rightarrow> Inr ((pair, records') # rest')))"

text \<open>\<open>calcContigPairBarcodeStats\<close>: the scan, then the second loop.\<close>

definition calcContigPairBarcodeStats ::
  "bool \<Rightarrow> IndexMap \<Rightarrow> IndexMultMap \<Rightarrow> ContigToLength \<Rightarrow> ArcsParams \<Rightarrow> PairMap
   \<Rightarrow> error + PairMap"
where
  "calcContigPairBarcodeStats ndebug imap indexMultMap contigToLength params pmap =
     (case countBarcodes imap indexMultMap contigToLength params ([], pmap) of
        Inl e \<Rightarrow> Inl e
      | Inr (contigEndToBarcodeCount, pmap') \<Rightarrow>
          completePairs ndebug contigEndToBarcodeCount pmap')"

section \<open>The distance estimator\<close>

text \<open>
  Modelled from the spec: \<open>closestKeys\<close> (Common/MapUtil.h is not part of the sources),
  the range query of the calibration index: the contiguous range of entries whose key
  lies within \<open>\<plusminus>bin\<close> of \<open>target\<close>. The two iterators are positions in the ordered
  list of entries: the first entry whose key is not below \<open>target - bin\<close>, and the
  first entry whose key is above \<open>target + bin\<close>.
\<close>

definition closestKeys :: "JaccardToDist \<Rightarrow> c_double \<Rightarrow> c_double \<Rightarrow> nat \<times> nat" where
  "closestKeys m target bin =
     (length (takeWhile (\<lambda>e. fst e < target - bin) m),
      length (takeWhile (\<lambda>e. fst e \<le> target + bin) m))"

text \<open>
  Modelled from the spec: \<open>quantile\<close> (Common/StatUtil.h is not part of the sources),
  the quantile of a sorted range by linear interpolation between the two order
  statistics that bracket the position \<open>p * (n - 1)\<close>. An empty range has no quantile.
\<close>

definition quantile :: "c_unsigned list \<Rightarrow> c_double \<Rightarrow> c_double option" where
  "quantile xs p =
     (if xs = [] then None
      else
        let h = p * of_nat (length xs - 1);
            lo = nat \<lfloor>h\<rfloor>;
            hi = nat \<lceil>h\<rceil>;
            a = of_nat (unat (xs ! lo));
            b = of_nat (unat (xs ! hi))
        in Some (a + (h - of_nat lo) * (b - a)))"

text \<open>
  The loop \<open>for (sampleIt = lowerIt; sampleIt != upperIt; ++sampleIt)\<close> of
  \<open>estimateDistance\<close>. It stops only where the two iterators meet; an iterator that
  reaches \<open>end()\<close> before that cannot be read or moved.
\<close>

function collectDistances :: "JaccardToDist \<Rightarrow> nat \<Rightarrow> nat \<Rightarrow> error + c_unsigned list" where
  "collectDistances m sampleIt upperIt =
     (if sampleIt = upperIt then Inr []
      else if length m \<le> sampleIt then Inl IteratorPastEnd
      else
        (case collectDistances m (Suc sampleIt) upperIt of
           Inl e \<Rightarrow> Inl e
         | Inr distances \<Rightarrow> Inr (distance (snd (m ! sampleIt)) # distances)))"
  by pat_completeness auto
termination
  by (relation "measure (\<lambda>(m, sampleIt, upperIt). length m - sampleIt)") auto

declare collectDistances.simps [simp del]

text \<open>
  The conversion \<open>(int)\<close> of a \<open>double\<close> that holds an integer: defined only inside
  the range of \<open>int\<close>.
\<close>

definition double_to_int :: "int \<Rightarrow> error + c_int" where
  "double_to_int z =
     (if - (2 ^ 31) \<le> z \<and> z < 2 ^ 31 then Inr (of_int z) else Inl IntConversion)"

text \<open>
  The Jaccard score of a pair record,
  \<open>double(rec.barcodesIntersect) / rec.barcodesUnion\<close>.
\<close>

definition jaccardScore :: "PairRecord \<Rightarrow> c_double" where
  "jaccardScore rec =
     of_nat (PairRecord.barcodesIntersect rec) / of_nat (PairRecord.barcodesUnion rec)"

text \<open>
  \<open>estimateDistance\<close>. The flag \<open>ndebug\<close> says whether the program was compiled with
  \<open>NDEBUG\<close>, which removes the \<open>assert\<close>.
\<close>

definition estimateDistance ::
  "bool \<Rightarrow> PairRecord \<Rightarrow> JaccardToDist \<Rightarrow> ArcsParams \<Rightarrow> error + (DistanceEstimate \<times> bool)"
where
  "estimateDistance ndebug rec jaccardToDist params =
     (let result = DistanceEstimate_init in
      if jaccardToDist = [] then Inr (result, False)
      else if PairRecord.barcodesUnion rec = 0 then Inr (result, False)
      else
        let result = result\<lparr>jaccard := jaccardScore rec\<rparr> in
        if \<not> ndebug \<and> \<not> (0 \<le> jaccard result \<and> jaccard result \<le> 1) then Inl AssertionFailed
        else
          (case closestKeys jaccardToDist (jaccard result) (dist_bin_size params) of
             (lowerIt, upperIt) \<Rightarrow>
          (case collectDistances jaccardToDist lowerIt upperIt of
             Inl e \<Rightarrow> Inl e
           | Inr distances \<Rightarrow>
          (let distances = sort distances in
          (case quantile distances (1 / 100) of
             None \<Rightarrow> Inl EmptyQuantile
           | Some q1 \<Rightarrow>
          (case double_to_int \<lfloor>q1\<rfloor> of
             Inl e \<Rightarrow> Inl e
           | Inr lo \<Rightarrow>
          (case quantile distances (99 / 100) of
             None \<Rightarrow> Inl EmptyQuantile
           | Some q99 \<Rightarrow>
          (case double_to_int \<lceil>q99\<rceil> of
             Inl e \<Rightarrow> Inl e
           | Inr hi \<Rightarrow> Inr (result\<lparr>minDist := lo, maxDist := hi\<rparr>, True)))))))))"

section \<open>Notions used in the statements\<close>

text \<open>
  The contig has an entry in \<open>contigToLength\<close> and passes the length test of
  \<open>calcDistSamples\<close>; the distance that \<open>calcDistSamples\<close> stores for it.
\<close>

definition lengthOK :: "ArcsParams \<Rightarrow> ContigToLength \<Rightarrow> string \<Rightarrow> bool" where
  "lengthOK params contigToLength contigID =
     (case map_of contigToLength contigID of
        None \<Rightarrow> False
      | Some l \<Rightarrow> \<not> l < to_unsigned 2 * to_unsigned (end_length params))"

definition knownDistance :: "ArcsParams \<Rightarrow> ContigToLength \<Rightarrow> string \<Rightarrow> c_unsigned" where
  "knownDistance params contigToLength contigID =
     (case map_of contigToLength contigID of
        None \<Rightarrow> - 1
      | Some l \<Rightarrow> l - to_unsigned (2 * end_length params))"

text \<open>
  What the entries \<open>es\<close> of a barcode's map \<open>m\<close> do to the sample of one contig: one
  update for a qualifying head entry and one for a qualifying tail entry.
\<close>

definition tally ::
  "ArcsParams \<Rightarrow> ContigToLength \<Rightarrow> ScafMap \<Rightarrow> ScafMap \<Rightarrow> string \<Rightarrow> DistSample \<Rightarrow> DistSample"
where
  "tally params contigToLength m es c s =
     (let d = knownDistance params contigToLength c;
          s = (if foundOther params es (c, False)
               then countSample False (foundOther params m (c, True)) d s else s)
      in if foundOther params es (c, True)
         then countSample True (foundOther params m (c, False)) d s else s)"

text \<open>
  The invariant of a stored sample: its contig passes the length test, the distance is
  the one of the contig, the intersection counter is bounded by the head and the tail
  counter, the four counters balance, and one end at least was counted.
\<close>

definition countersBalanced :: "DistSample \<Rightarrow> bool" where
  "countersBalanced s \<longleftrightarrow>
     DistSample.barcodesIntersect s \<le> barcodesHead s
     \<and> DistSample.barcodesIntersect s \<le> barcodesTail s
     \<and> barcodesHead s + barcodesTail s =
         DistSample.barcodesUnion s + DistSample.barcodesIntersect s"

definition sampleInv :: "ArcsParams \<Rightarrow> ContigToLength \<Rightarrow> string \<Rightarrow> DistSample \<Rightarrow> bool" where
  "sampleInv params contigToLength c s \<longleftrightarrow>
     lengthOK params contigToLength c
     \<and> distance s = knownDistance params contigToLength c
     \<and> countersBalanced s
     \<and> 1 \<le> barcodesHead s + barcodesTail s"

definition samplesInv :: "ArcsParams \<Rightarrow> ContigToLength \<Rightarrow> DistSampleMap \<Rightarrow> bool" where
  "samplesInv params contigToLength ds \<longleftrightarrow>
     (\<forall>c s. map_of ds c = Some s \<longrightarrow> sampleInv params contigToLength c s)"

text \<open>
  An end of a contig qualifies in a barcode's map: it is a key of the map, its contig
  has a length, and \<open>validBarcodeMapping\<close> accepts the length and the read pairs.
\<close>

definition qualifiedEnd :: "ArcsParams \<Rightarrow> ContigToLength \<Rightarrow> ScafMap \<Rightarrow> CI \<Rightarrow> bool" where
  "qualifiedEnd params contigToLength m k =
     (case map_of m k of
        None \<Rightarrow> False
      | Some pairs \<Rightarrow>
          (case map_of contigToLength (fst k) of
             None \<Rightarrow> False
           | Some l \<Rightarrow> validBarcodeMapping l pairs params = Inr True))"

text \<open>The counter of an end in the side table, zero for an end that is not a key.\<close>

definition countOf :: "ContigEndToBarcodeCount \<Rightarrow> CI \<Rightarrow> nat" where
  "countOf contigEndToBarcodeCount k =
     (case map_of contigEndToBarcodeCount k of None \<Rightarrow> 0 | Some n \<Rightarrow> n)"

text \<open>The head flags of the two ends of the orientation at position \<open>i\<close>.\<close>

definition head1_of :: "nat \<Rightarrow> bool" where
  "head1_of i \<longleftrightarrow> i = 0 \<or> i = 1"

definition head2_of :: "nat \<Rightarrow> bool" where
  "head2_of i \<longleftrightarrow> i = 0 \<or> i = 2"

definition intersectOf :: "PairMap \<Rightarrow> ContigPair \<Rightarrow> nat \<Rightarrow> nat" where
  "intersectOf pmap pair i = PairRecord.barcodesIntersect (recordsOf pmap pair ! i)"

text \<open>
  The invariant of the scan between two barcodes: the keys of the pair map are distinct,
  every pair has four records, the counters of the side table are positive, and the
  shared-barcode counter of an orientation is bounded by the counters of its two ends.
\<close>

definition scanInv :: "ContigEndToBarcodeCount \<times> PairMap \<Rightarrow> bool" where
  "scanInv state \<longleftrightarrow>
     (case state of (contigEndToBarcodeCount, pmap) \<Rightarrow>
        distinct (map fst pmap)
        \<and> (\<forall>pair. length (recordsOf pmap pair) = NUM_ORIENTATIONS)
        \<and> (\<forall>k n. map_of contigEndToBarcodeCount k = Some n \<longrightarrow> 0 < n)
        \<and> (\<forall>a b i. i < NUM_ORIENTATIONS \<longrightarrow>
              intersectOf pmap (a, b) i \<le> countOf contigEndToBarcodeCount (a, head1_of i)
              \<and> intersectOf pmap (a, b) i \<le> countOf contigEndToBarcodeCount (b, head2_of i)))"

text \<open>
  The record \<open>r\<close> is the record \<open>r0\<close> of the orientation \<open>i\<close> of a pair after the
  second loop: both ends are keys of the side table, and the three fields are filled
  from their counters.
\<close>

definition completed ::
  "ContigEndToBarcodeCount \<Rightarrow> ContigPair \<Rightarrow> nat \<Rightarrow> PairRecord \<Rightarrow> PairRecord \<Rightarrow> bool"
where
  "completed contigEndToBarcodeCount pair i r0 r =
     (case map_of contigEndToBarcodeCount (fst pair, head1_of i) of
        None \<Rightarrow> False
      | Some n1 \<Rightarrow>
          (case map_of contigEndToBarcodeCount (snd pair, head2_of i) of
             None \<Rightarrow> False
           | Some n2 \<Rightarrow>
               r = r0\<lparr>barcodes1 := n1, barcodes2 := n2,
                      PairRecord.barcodesUnion :=
                        unsigned_minus (n1 + n2) (PairRecord.barcodesIntersect r0)\<rparr>))"

text \<open>
  An entry of a barcode's map passes the test of the pair statistics builder: its contig
  has a length and \<open>validBarcodeMapping\<close> accepts it.
\<close>

definition validEntry :: "ContigToLength \<Rightarrow> ArcsParams \<Rightarrow> string \<Rightarrow> c_int \<Rightarrow> bool" where
  "validEntry contigToLength params contigID pairs =
     (case map_of contigToLength contigID of
        None \<Rightarrow> False
      | Some l \<Rightarrow> validBarcodeMapping l pairs params = Inr True)"

text \<open>What one pass of the innermost body does to the records of every pair.\<close>

definition pairHit :: "ContigToLength \<Rightarrow> ArcsParams \<Rightarrow> string \<Rightarrow> string \<Rightarrow> c_int \<Rightarrow> bool" where
  "pairHit contigToLength params id1 id2 pairs2 =
     (case map_of contigToLength id2 of
        None \<Rightarrow> False
      | Some length2 \<Rightarrow> validBarcodeMapping length2 pairs2 params = Inr True \<and> \<not> id2 < id1)"

definition bumpIntersect :: "nat \<Rightarrow> PairRecords \<Rightarrow> PairRecords" where
  "bumpIntersect i records =
     records[i := (records ! i)\<lparr>PairRecord.barcodesIntersect :=
                     PairRecord.barcodesIntersect (records ! i) + 1\<rparr>]"

text \<open>
  The spec's words for the input of the quantiles: the known distances of the entries of
  the calibration index whose key lies within \<open>\<plusminus>dist_bin_size\<close> of the Jaccard score of
  the pair, sorted.
\<close>

definition windowDistances :: "PairRecord \<Rightarrow> JaccardToDist \<Rightarrow> ArcsParams \<Rightarrow> c_unsigned list" where
  "windowDistances rec jaccardToDist params =
     sort (map (\<lambda>e. distance (snd e))
       (filter (\<lambda>e. \<bar>fst e - jaccardScore rec\<bar> \<le> dist_bin_size params) jaccardToDist))"

text \<open>
  The spec's words for the percentile: the position \<open>p * (n - 1)\<close> in the sorted values,
  its integer part \<open>k\<close> and its fractional part \<open>g\<close>; the value at \<open>k\<close> when \<open>g\<close> is
  zero, and otherwise the value at \<open>k\<close> plus \<open>g\<close> times the step to the value at
  \<open>k + 1\<close>.
\<close>

definition interpolated :: "rat list \<Rightarrow> rat \<Rightarrow> rat" where
  "interpolated ys p =
     (let h = p * of_nat (length ys - 1);
          k = nat \<lfloor>h\<rfloor>;
          g = h - of_int \<lfloor>h\<rfloor>
      in if g = 0 then ys ! k else ys ! k + g * (ys ! (k + 1) - ys ! k))"

text \<open>The four counters of a sample are at most \<open>n\<close>.\<close>

definition countersBelow :: "nat \<Rightarrow> DistSample \<Rightarrow> bool" where
  "countersBelow n s \<longleftrightarrow>
     barcodesHead s \<le> n \<and> barcodesTail s \<le> n
     \<and> DistSample.barcodesUnion s \<le> n \<and> DistSample.barcodesIntersect s \<le> n"

section \<open>Concrete inputs\<close>

definition scenarioParams :: ArcsParams where
  "scenarioParams =
     \<lparr>min_reads = 3, min_mult = 1, max_mult = 10, end_length = 100, dist_bin_size = 1 / 10\<rparr>"

definition scenarioEvidence :: IndexMap where
  "scenarioEvidence =
     [(''BX1'', [((''C1'', True), 5), ((''C1'', False), 5)]),
      (''BX2'', [((''C1'', True), 4)])]"

definition scenarioLengths :: ContigToLength where
  "scenarioLengths = [(''C1'', 300)]"

definition scenarioMult :: IndexMultMap where
  "scenarioMult = [(''BX1'', 2), (''BX2'', 1)]"

definition pairEvidence :: IndexMap where
  "pairEvidence =
     [(''BX1'', [((''A'', True), 5), ((''A'', False), 5), ((''B'', True), 5), ((''B'', False), 5)]),
      (''BX2'', [((''A'', True), 5), ((''B'', False), 5)])]"

definition pairLengths :: ContigToLength where
  "pairLengths = [(''A'', 300), (''B'', 400)]"

definition pairStatistics :: PairMap where
  "pairStatistics =
     [((''A'', ''A''),
       [\<lparr>PairRecord.barcodesIntersect = 2, barcodes1 = 2, barcodes2 = 2,
          PairRecord.barcodesUnion = 2\<rparr>,
        \<lparr>PairRecord.barcodesIntersect = 1, barcodes1 = 2, barcodes2 = 1,
          PairRecord.barcodesUnion = 2\<rparr>,
        \<lparr>PairRecord.barcodesIntersect = 1, barcodes1 = 1, barcodes2 = 2,
          PairRecord.barcodesUnion = 2\<rparr>,
        \<lparr>PairRecord.barcodesIntersect = 1, barcodes1 = 1, barcodes2 = 1,
          PairRecord.barcodesUnion = 1\<rparr>]),
      ((''A'', ''B''),
       [\<lparr>PairRecord.barcodesIntersect = 1, barcodes1 = 2, barcodes2 = 1,
          PairRecord.barcodesUnion = 2\<rparr>,
        \<lparr>PairRecord.barcodesIntersect = 2, barcodes1 = 2, barcodes2 = 2,
          PairRecord.barcodesUnion = 2\<rparr>,
        \<lparr>PairRecord.barcodesIntersect = 1, barcodes1 = 1, barcodes2 = 1,
          PairRecord.barcodesUnion = 1\<rparr>,
        \<lparr>PairRecord.barcodesIntersect = 1, barcodes1 = 1, barcodes2 = 2,
          PairRecord.barcodesUnion = 2\<rparr>]),
      ((''B'', ''B''),
       [\<lparr>PairRecord.barcodesIntersect = 1, barcodes1 = 1, barcodes2 = 1,
          PairRecord.barcodesUnion = 1\<rparr>,
        \<lparr>PairRecord.barcodesIntersect = 1, barcodes1 = 1, barcodes2 = 2,
          PairRecord.barcodesUnion = 2\<rparr>,
        \<lparr>PairRecord.barcodesIntersect = 1, barcodes1 = 2, barcodes2 = 1,
          PairRecord.barcodesUnion = 2\<rparr>,
        \<lparr>PairRecord.barcodesIntersect = 2, barcodes1 = 2, barcodes2 = 2,
          PairRecord.barcodesUnion = 2\<rparr>])]"

definition tiedSamples :: DistSampleMap where
  "tiedSamples =
     [(''C1'', \<lparr>distance = 100, barcodesHead = 1, barcodesTail = 1,
         DistSample.barcodesUnion = 1, DistSample.barcodesIntersect = 1\<rparr>),
      (''C2'', \<lparr>distance = 200, barcodesHead = 1, barcodesTail = 1,
         DistSample.barcodesUnion = 1, DistSample.barcodesIntersect = 1\<rparr>)]"

definition calibration :: JaccardToDist where
  "calibration =
     [(1 / 10, \<lparr>distance = 9000, barcodesHead = 10, barcodesTail = 1,
         DistSample.barcodesUnion = 10, DistSample.barcodesIntersect = 1\<rparr>),
      (2 / 5, \<lparr>distance = 500, barcodesHead = 4, barcodesTail = 3,
         DistSample.barcodesUnion = 5, DistSample.barcodesIntersect = 2\<rparr>),
      (3 / 7, \<lparr>distance = 120, barcodesHead = 5, barcodesTail = 5,
         DistSample.barcodesUnion = 7, DistSample.barcodesIntersect = 3\<rparr>),
      (4 / 9, \<lparr>distance = 110, barcodesHead = 6, barcodesTail = 7,
         DistSample.barcodesUnion = 9, DistSample.barcodesIntersect = 4\<rparr>),
      (1 / 2, \<lparr>distance = 100, barcodesHead = 3, barcodesTail = 3,
         DistSample.barcodesUnion = 4, DistSample.barcodesIntersect = 2\<rparr>),
      (5 / 9, \<lparr>distance = 100, barcodesHead = 7, barcodesTail = 7,
         DistSample.barcodesUnion = 9, DistSample.barcodesIntersect = 5\<rparr>),
      (4 / 7, \<lparr>distance = 90, barcodesHead = 6, barcodesTail = 5,
         DistSample.barcodesUnion = 7, DistSample.barcodesIntersect = 4\<rparr>),
      (3 / 5, \<lparr>distance = 80, barcodesHead = 4, barcodesTail = 4,
         DistSample.barcodesUnion = 5, DistSample.barcodesIntersect = 3\<rparr>),
      (9 / 10, \<lparr>distance = 1, barcodesHead = 9, barcodesTail = 10,
         DistSample.barcodesUnion = 10, DistSample.barcodesIntersect = 9\<rparr>)]"

definition halfShared :: PairRecord where
  "halfShared =
     \<lparr>PairRecord.barcodesIntersect = 6, barcodes1 = 10, barcodes2 = 8,
      PairRecord.barcodesUnion = 12\<rparr>"

definition allShared :: PairRecord where
  "allShared =
     \<lparr>PairRecord.barcodesIntersect = 1, barcodes1 = 1, barcodes2 = 1,
      PairRecord.barcodesUnion = 1\<rparr>"

definition farCalibration :: JaccardToDist where
  "farCalibration =
     [(0, \<lparr>distance = 100, barcodesHead = 1, barcodesTail = 0,
         DistSample.barcodesUnion = 1, DistSample.barcodesIntersect = 0\<rparr>)]"

section \<open>Properties of the eligibility test\<close>

lemma to_unsigned_twice: "to_unsigned (2 * e) = to_unsigned 2 * to_unsigned e"
  by (simp add: to_unsigned_def)

lemma uint_eq_sint_nonneg:
  fixes e :: c_int
  assumes "0 \<le> sint e"
  shows "uint e = sint e"
proof -
  have "sint e < 2 ^ 32"
    using sint_lt [of e] by simp
  then show ?thesis
    using assms by (simp add: uint_sint take_bit_int_eq_self)
qed

lemma twice_end_length_nonneg:
  fixes e :: c_int
  assumes "0 \<le> sint e"
  shows "uint (to_unsigned (2 * e)) = (2 * sint e) mod 2 ^ 32"
  using uint_eq_sint_nonneg [OF assms] by (simp add: to_unsigned_def uint_word_ariths)

lemma sampleOf_Some: "map_of ds c = Some s \<Longrightarrow> sampleOf ds c = s"
  by (simp add: sampleOf_def)

lemma AList_update_same:
  assumes "AList.update k v al = al"
  shows "map_of al k = Some v"
proof -
  have "map_of (AList.update k v al) k = Some v"
    by (simp add: update_conv')
  with assms show ?thesis
    by simp
qed

lemma countSample_changes: "countSample isHead found d s \<noteq> s"
proof
  assume eq: "countSample isHead found d s = s"
  have "barcodesHead (countSample isHead found d s) + barcodesTail (countSample isHead found d s) =
        barcodesHead s + barcodesTail s + 1"
    by (simp add: countSample_def Let_def)
  with eq show False
    by simp
qed

text \<open>
  Where \<open>validBarcodeMapping\<close> is defined and where it is not: it has a value when the
  read pairs are below \<open>min_reads\<close> (the function returns before the product) or
  \<open>end_length\<close> lies from \<open>- 2 ^ 30\<close> to \<open>2 ^ 30 - 1\<close>; with \<open>end_length\<close> the least
  \<open>int\<close> and enough read pairs it has none.
\<close>

lemma validBarcodeMapping_defined:
  "(\<exists>valid. validBarcodeMapping l pairs params = Inr valid) \<longleftrightarrow>
     pairs <s min_reads params
     \<or> (- (2 ^ 30) \<le> sint (end_length params) \<and> sint (end_length params) < 2 ^ 30)"
  by (auto simp: validBarcodeMapping_def int_twice_def split: if_splits)

lemma validBarcodeMapping_overflow:
  "validBarcodeMapping 0 5
     \<lparr>min_reads = 3, min_mult = 1, max_mult = 10, end_length = - 2147483648,
      dist_bin_size = 1 / 10\<rparr> = Inl SignedOverflow"
  by (simp add: validBarcodeMapping_def int_twice_def word_sless_alt)

text \<open>
  Claim C9, as the code has it. Take a contig that has a length, and a read-pair count
  and parameters for which \<open>validBarcodeMapping\<close> is defined (its product
  \<open>2 * end_length\<close> on \<open>int\<close> does not overflow). Then the body of the inner loop of
  \<open>calcDistSamples\<close> updates the sample of the contig exactly when
  \<open>validBarcodeMapping\<close> returns true, and leaves the samples as they are exactly when it
  returns false. Both tests accept the observations whose read-pair count is at least
  \<open>min_reads\<close> (as \<open>int\<close>) and whose contig length is at least \<open>2 * end_length\<close>
  converted to \<open>unsigned\<close>; for an \<open>end_length\<close> from \<open>0\<close> to \<open>2 ^ 30 - 1\<close> these are
  the observations with read-pair count \<open>\<ge> min_reads\<close> and contig length
  \<open>\<ge> 2 * end_length\<close> as integers.
\<close>

theorem sampleEntry_eq_validBarcodeMapping:
  assumes "map_of contigToLength contigID = Some l"
    and "validBarcodeMapping l readPairs params = Inr valid"
  shows "sampleEntry contigToLength params contigToCount ((contigID, isHead), readPairs)
           distSamples =
         (if valid
          then Inr (AList.update contigID
                      (countSample isHead
                         (foundOther params contigToCount (contigID, \<not> isHead))
                         (l - to_unsigned (2 * end_length params))
                         (sampleOf distSamples contigID))
                      distSamples)
          else Inr distSamples)
     \<and> (sampleEntry contigToLength params contigToCount ((contigID, isHead), readPairs)
           distSamples \<noteq> Inr distSamples) = valid
     \<and> valid = (min_reads params \<le>s readPairs
                 \<and> to_unsigned (2 * end_length params) \<le> l)
     \<and> (0 \<le> sint (end_length params) \<and> sint (end_length params) < 2 ^ 30 \<longrightarrow>
          valid = (sint (min_reads params) \<le> sint readPairs
                   \<and> 2 * sint (end_length params) \<le> uint l))"
proof -
  have v: "valid = (\<not> readPairs <s min_reads params
                    \<and> \<not> l < to_unsigned (2 * end_length params))"
    using assms(2)
    by (auto simp: validBarcodeMapping_def int_twice_def split: if_splits)
  have run: "sampleEntry contigToLength params contigToCount ((contigID, isHead), readPairs)
           distSamples =
         (if valid
          then Inr (AList.update contigID
                      (countSample isHead
                         (foundOther params contigToCount (contigID, \<not> isHead))
                         (l - to_unsigned (2 * end_length params))
                         (sampleOf distSamples contigID))
                      distSamples)
          else Inr distSamples)"
    using assms(1) by (simp add: sampleEntry_def v to_unsigned_twice)
  have changed: "AList.update contigID
                      (countSample isHead
                         (foundOther params contigToCount (contigID, \<not> isHead))
                         (l - to_unsigned (2 * end_length params))
                         (sampleOf distSamples contigID))
                      distSamples \<noteq> distSamples"
  proof
    assume "AList.update contigID
                      (countSample isHead
                         (foundOther params contigToCount (contigID, \<not> isHead))
                         (l - to_unsigned (2 * end_length params))
                         (sampleOf distSamples contigID))
                      distSamples = distSamples"
    then have "map_of distSamples contigID =
        Some (countSample isHead
                (foundOther params contigToCount (contigID, \<not> isHead))
                (l - to_unsigned (2 * end_length params))
                (sampleOf distSamples contigID))"
      by (rule AList_update_same)
    then have "sampleOf distSamples contigID =
        countSample isHead
          (foundOther params contigToCount (contigID, \<not> isHead))
          (l - to_unsigned (2 * end_length params))
          (sampleOf distSamples contigID)"
      by (rule sampleOf_Some)
    then show False
      using countSample_changes [of isHead _ _ "sampleOf distSamples contigID"] by metis
  qed
  have obs: "(sampleEntry contigToLength params contigToCount ((contigID, isHead), readPairs)
           distSamples \<noteq> Inr distSamples) = valid"
    using changed by (simp add: run)
  have mach: "valid = (min_reads params \<le>s readPairs
                 \<and> to_unsigned (2 * end_length params) \<le> l)"
    by (auto simp: v word_sless_alt word_sle_eq)
  have ints: "valid = (sint (min_reads params) \<le> sint readPairs
                   \<and> 2 * sint (end_length params) \<le> uint l)"
    if e: "0 \<le> sint (end_length params) \<and> sint (end_length params) < 2 ^ 30"
  proof -
    from e have "uint (to_unsigned (2 * end_length params)) =
        (2 * sint (end_length params)) mod 2 ^ 32"
      by (simp add: twice_end_length_nonneg)
    also have "\<dots> = 2 * sint (end_length params)"
      using e by simp
    finally have "uint (to_unsigned (2 * end_length params)) = 2 * sint (end_length params)" .
    then show ?thesis
      by (auto simp: v word_sless_alt word_less_def)
  qed
  from run obs mach ints show ?thesis
    by blast
qed

theorem sampleEntry_eq_validBarcodeMapping_witness:
  "validBarcodeMapping 300 5 scenarioParams = Inr True
   \<and> sampleEntry scenarioLengths scenarioParams [((''C1'', True), 5)] ((''C1'', True), 5) []
       \<noteq> Inr []
   \<and> validBarcodeMapping 300 2 scenarioParams = Inr False
   \<and> sampleEntry scenarioLengths scenarioParams [((''C1'', True), 2)] ((''C1'', True), 2) []
       = Inr []
   \<and> (sint (3 :: c_int) \<le> sint (5 :: c_int) \<and> 2 * sint (100 :: c_int) \<le> uint (300 :: c_unsigned))"
proof -
  have h1: "map_of scenarioLengths ''C1'' = Some 300"
    by (simp add: scenarioLengths_def)
  have h2: "validBarcodeMapping 300 5 scenarioParams = Inr True"
    by (simp add: validBarcodeMapping_def int_twice_def scenarioParams_def to_unsigned_def
        word_sless_alt)
  have h3: "validBarcodeMapping 300 2 scenarioParams = Inr False"
    by (simp add: validBarcodeMapping_def int_twice_def scenarioParams_def to_unsigned_def
        word_sless_alt)
  from sampleEntry_eq_validBarcodeMapping [OF h1 h2, of "[((''C1'', True), 5)]" True "[]"]
    sampleEntry_eq_validBarcodeMapping [OF h1 h3, of "[((''C1'', True), 2)]" True "[]"]
    h2 h3
  show ?thesis
    by (simp add: scenarioParams_def)
qed

text \<open>
  The claim as the spec states it fails for a negative \<open>end_length\<close>, which wraps
  around in the conversion to \<open>unsigned\<close>. With \<open>end_length = -1\<close> the bound of both
  tests is \<open>2 ^ 32 - 2\<close>: the read pairs reach \<open>min_reads\<close> and the contig length
  \<open>300\<close> is above \<open>2 * end_length = -2\<close>, yet \<open>validBarcodeMapping\<close> returns false and
  the body of the loop of \<open>calcDistSamples\<close> leaves the samples as they are.
\<close>

theorem eligibility_negative_end_length:
  "sint (3 :: c_int) \<le> sint (5 :: c_int)
   \<and> 2 * sint (- 1 :: c_int) \<le> uint (300 :: c_unsigned)
   \<and> validBarcodeMapping 300 5
       \<lparr>min_reads = 3, min_mult = 1, max_mult = 10, end_length = - 1, dist_bin_size = 1 / 10\<rparr>
     = Inr False
   \<and> sampleEntry [(''C1'', 300)]
       \<lparr>min_reads = 3, min_mult = 1, max_mult = 10, end_length = - 1, dist_bin_size = 1 / 10\<rparr>
       [((''C1'', True), 5)] ((''C1'', True), 5) []
     = Inr []"
  by (simp add: validBarcodeMapping_def int_twice_def sampleEntry_def to_unsigned_def
      word_sless_alt)

section \<open>Properties of the sample builder\<close>

lemma countSample_fields [simp]:
  "distance (countSample h f d s) = d"
  "barcodesHead (countSample h f d s) = barcodesHead s + (if h then 1 else 0)"
  "barcodesTail (countSample h f d s) = barcodesTail s + (if h then 0 else 1)"
  "DistSample.barcodesUnion (countSample h f d s) =
     DistSample.barcodesUnion s + (if (f \<and> h) \<or> \<not> f then 1 else 0)"
  "DistSample.barcodesIntersect (countSample h f d s) =
     DistSample.barcodesIntersect s + (if f \<and> h then 1 else 0)"
  by (simp_all add: countSample_def Let_def)

lemma countSample_commute:
  "countSample True f d (countSample False g d s) = countSample False g d (countSample True f d s)"
  by (simp add: countSample_def Let_def)

lemma sle_iff_not_sless: "(a \<le>s b) = (\<not> b <s a)"
  by (auto simp: word_sle_eq word_sless_alt)

lemma foundOther_Cons:
  "foundOther params ((k, v) # es) k' =
     (if k' = k then min_reads params \<le>s v else foundOther params es k')"
  by (simp add: foundOther_def)

lemma foundOther_absent: "k \<notin> fst ` set es \<Longrightarrow> \<not> foundOther params es k"
  by (simp add: foundOther_def map_of_eq_None_iff [THEN iffD2])

lemma sampleEntry_other:
  assumes "sampleEntry contigToLength params m ((c1, h1), v1) ds = Inr ds'" and "c1 \<noteq> c"
  shows "map_of ds' c = map_of ds c"
  using assms
  by (auto simp: sampleEntry_def update_conv' split: if_splits option.splits)

lemma sampleEntry_skip:
  assumes "sampleEntry contigToLength params m ((c1, h1), v1) ds = Inr ds'"
    and "v1 <s min_reads params \<or> \<not> lengthOK params contigToLength c1"
  shows "ds' = ds"
  using assms
  by (auto simp: sampleEntry_def lengthOK_def split: if_splits option.splits)

lemma sampleEntry_hit:
  assumes "sampleEntry contigToLength params m ((c1, h1), v1) ds = Inr ds'"
    and "\<not> v1 <s min_reads params" and "lengthOK params contigToLength c1"
  shows "map_of ds' c1 =
     Some (countSample h1 (foundOther params m (c1, \<not> h1))
             (knownDistance params contigToLength c1) (sampleOf ds c1))"
  using assms
  by (auto simp: sampleEntry_def lengthOK_def knownDistance_def update_conv'
      split: if_splits option.splits)

lemma sampleContigs_effect:
  assumes "distinct (map fst es)"
    and "sampleContigs contigToLength params m es ds = Inr ds'"
  shows "map_of ds' c =
     (if lengthOK params contigToLength c
         \<and> (foundOther params es (c, True) \<or> foundOther params es (c, False))
      then Some (tally params contigToLength m es c (sampleOf ds c))
      else map_of ds c)"
  using assms
proof (induction es arbitrary: ds)
  case Nil
  then show ?case by (simp add: foundOther_def)
next
  case (Cons e es)
  obtain c1 h1 v1 where e: "e = ((c1, h1), v1)" by (metis surj_pair)
  from Cons.prems(2) obtain ds1 where
    step: "sampleEntry contigToLength params m ((c1, h1), v1) ds = Inr ds1" and
    rest: "sampleContigs contigToLength params m es ds1 = Inr ds'"
    by (auto simp: e split: sum.splits)
  from Cons.prems(1) have dist: "distinct (map fst es)" and fresh: "(c1, h1) \<notin> fst ` set es"
    by (auto simp: e)
  note IH = Cons.IH [OF dist rest]
  show ?case
  proof (cases "c1 = c")
    case False
    then have "map_of ds1 c = map_of ds c" "sampleOf ds1 c = sampleOf ds c"
      using sampleEntry_other [OF step] by (simp_all add: sampleOf_def)
    with False IH show ?thesis
      by (auto simp: e foundOther_Cons tally_def)
  next
    case True
    show ?thesis
    proof (cases "v1 <s min_reads params \<or> \<not> lengthOK params contigToLength c1")
      case skip: True
      then have "ds1 = ds" using sampleEntry_skip [OF step] by simp
      with True skip IH fresh foundOther_absent [of "(c1, h1)" es params] show ?thesis
        by (cases h1) (auto simp: e foundOther_Cons tally_def sle_iff_not_sless)
    next
      case hit: False
      then have q: "\<not> v1 <s min_reads params" and ok: "lengthOK params contigToLength c1"
        by simp_all
      have s1: "sampleOf ds1 c =
          countSample h1 (foundOther params m (c, \<not> h1))
            (knownDistance params contigToLength c) (sampleOf ds c)"
        using sampleEntry_hit [OF step q ok] True by (simp add: sampleOf_def)
      have m1: "map_of ds1 c = Some (sampleOf ds1 c)"
        using sampleEntry_hit [OF step q ok] True by (simp add: sampleOf_def)
      from True q ok IH fresh foundOther_absent [of "(c1, h1)" es params] s1 m1 show ?thesis
        by (cases h1)
          (auto simp: e foundOther_Cons tally_def sle_iff_not_sless Let_def countSample_commute)
    qed
  qed
qed


lemma calcDistSamples_append:
  "calcDistSamples (imap1 @ imap2) contigToLength indexMultMap params ds =
     (case calcDistSamples imap1 contigToLength indexMultMap params ds of
        Inl e \<Rightarrow> Inl e
      | Inr ds1 \<Rightarrow> calcDistSamples imap2 contigToLength indexMultMap params ds1)"
proof (induction imap1 arbitrary: ds)
  case Nil
  show ?case by simp
next
  case (Cons b imap1)
  obtain index m where b: "b = (index, m)" by (cases b)
  show ?case
    by (simp add: b Cons.IH split: option.splits sum.splits)
qed

lemma calcDistSamples_single:
  assumes "map_of indexMultMap index = Some k"
    and "\<not> (k <s min_mult params \<or> max_mult params <s k)"
  shows "calcDistSamples [(index, m)] contigToLength indexMultMap params ds =
     sampleContigs contigToLength params m m ds"
  using assms by (simp split: sum.splits)

lemma sampleEntry_distinct:
  assumes "sampleEntry contigToLength params m e ds = Inr ds'" and "distinct (map fst ds)"
  shows "distinct (map fst ds')"
  using assms
  by (cases e) (auto simp: sampleEntry_def distinct_update split: if_splits option.splits prod.splits)

lemma sampleContigs_distinct:
  assumes "sampleContigs contigToLength params m es ds = Inr ds'" and "distinct (map fst ds)"
  shows "distinct (map fst ds')"
  using assms
proof (induction es arbitrary: ds)
  case Nil
  then show ?case by simp
next
  case (Cons e es)
  then show ?case
    by (auto split: sum.splits dest: sampleEntry_distinct)
qed

lemma calcDistSamples_distinct:
  assumes "calcDistSamples imap contigToLength indexMultMap params ds = Inr ds'"
    and "distinct (map fst ds)"
  shows "distinct (map fst ds')"
  using assms
proof (induction imap arbitrary: ds)
  case Nil
  then show ?case by simp
next
  case (Cons b imap)
  obtain index m where b: "b = (index, m)" by (cases b)
  from Cons.prems show ?case
    by (auto simp: b split: option.splits if_splits sum.splits
        dest: sampleContigs_distinct intro: Cons.IH)
qed

lemma countersBalanced_init: "countersBalanced DistSample_init"
  by (simp add: countersBalanced_def DistSample_init_def)

lemma countersBalanced_sampleOf:
  "samplesInv params contigToLength ds \<Longrightarrow> countersBalanced (sampleOf ds c)"
  by (auto simp: samplesInv_def sampleInv_def sampleOf_def countersBalanced_init
      split: option.splits)

lemma tally_whole_sampleInv:
  assumes "countersBalanced s" and "lengthOK params contigToLength c"
    and "foundOther params m (c, True) \<or> foundOther params m (c, False)"
  shows "sampleInv params contigToLength c (tally params contigToLength m m c s)"
  using assms
  by (auto simp: sampleInv_def countersBalanced_def tally_def Let_def)

lemma sampleContigs_samplesInv:
  assumes "distinct (map fst m)"
    and "sampleContigs contigToLength params m m ds = Inr ds'"
    and "samplesInv params contigToLength ds"
  shows "samplesInv params contigToLength ds'"
  unfolding samplesInv_def
proof (intro allI impI)
  fix c s
  assume s: "map_of ds' c = Some s"
  note eff = sampleContigs_effect [OF assms(1,2), of c]
  show "sampleInv params contigToLength c s"
  proof (cases "lengthOK params contigToLength c
         \<and> (foundOther params m (c, True) \<or> foundOther params m (c, False))")
    case True
    with eff s have "s = tally params contigToLength m m c (sampleOf ds c)"
      by simp
    with True countersBalanced_sampleOf [OF assms(3), of c] show ?thesis
      by (simp add: tally_whole_sampleInv)
  next
    case False
    with eff s have "map_of ds c = Some s"
      by auto
    with assms(3) show ?thesis
      by (simp add: samplesInv_def)
  qed
qed

lemma calcDistSamples_samplesInv:
  assumes "\<forall>b \<in> set imap. distinct (map fst (snd b))"
    and "calcDistSamples imap contigToLength indexMultMap params ds = Inr ds'"
    and "samplesInv params contigToLength ds"
  shows "samplesInv params contigToLength ds'"
  using assms
proof (induction imap arbitrary: ds)
  case Nil
  then show ?case by simp
next
  case (Cons b imap)
  obtain index m where b: "b = (index, m)" by (cases b)
  from Cons.prems(1) have dm: "distinct (map fst m)"
    and rest: "\<forall>b \<in> set imap. distinct (map fst (snd b))"
    by (simp_all add: b)
  from Cons.prems(2) obtain k where k: "map_of indexMultMap index = Some k"
    by (auto simp: b split: option.splits)
  show ?case
  proof (cases "k <s min_mult params \<or> max_mult params <s k")
    case True
    with Cons.prems(2) k
    have "calcDistSamples imap contigToLength indexMultMap params ds = Inr ds'"
      by (simp add: b)
    then show ?thesis
      using Cons.IH [OF rest _ Cons.prems(3)] by simp
  next
    case False
    with Cons.prems(2) k obtain ds1 where
      one: "sampleContigs contigToLength params m m ds = Inr ds1" and
      more: "calcDistSamples imap contigToLength indexMultMap params ds1 = Inr ds'"
      by (auto simp: b split: sum.splits)
    from sampleContigs_samplesInv [OF dm one Cons.prems(3)]
    show ?thesis
      using Cons.IH [OF rest more] by simp
  qed
qed

lemma samplesInv_empty: "samplesInv params contigToLength []"
  by (simp add: samplesInv_def)

lemma calcDistSamples_member_sampleInv:
  assumes "\<forall>b \<in> set imap. distinct (map fst (snd b))"
    and "calcDistSamples imap contigToLength indexMultMap params [] = Inr ds"
    and "(c, s) \<in> set ds"
  shows "sampleInv params contigToLength c s"
proof -
  have "distinct (map fst ds)"
    using calcDistSamples_distinct [OF assms(2)] by simp
  with assms(3) have "map_of ds c = Some s"
    by simp
  moreover have "samplesInv params contigToLength ds"
    using calcDistSamples_samplesInv [OF assms(1,2) samplesInv_empty] .
  ultimately show ?thesis
    by (simp add: samplesInv_def)
qed



lemma scenarioA:
  "calcDistSamples [(''BX1'', [((''C1'', True), 5), ((''C1'', False), 5)])]
     scenarioLengths scenarioMult scenarioParams [] =
   Inr [(''C1'', \<lparr>distance = 100, barcodesHead = 1, barcodesTail = 1,
           DistSample.barcodesUnion = 1, DistSample.barcodesIntersect = 1\<rparr>)]"
  by (simp add: scenarioLengths_def scenarioMult_def scenarioParams_def sampleEntry_def
      countSample_def foundOther_def sampleOf_def DistSample_init_def to_unsigned_def
      word_sless_alt word_sle_eq)

lemma scenarioB:
  "calcDistSamples scenarioEvidence scenarioLengths scenarioMult scenarioParams [] =
   Inr [(''C1'', \<lparr>distance = 100, barcodesHead = 2, barcodesTail = 1,
           DistSample.barcodesUnion = 2, DistSample.barcodesIntersect = 1\<rparr>)]"
  by (simp add: scenarioEvidence_def scenarioLengths_def scenarioMult_def scenarioParams_def
      sampleEntry_def countSample_def foundOther_def sampleOf_def DistSample_init_def
      to_unsigned_def word_sless_alt word_sle_eq)

text \<open>
  Claim C6. A barcode inside the multiplicity range and a contig that passes the length
  test: when the barcode has at least \<open>min_reads\<close> read pairs at both ends of the
  contig, processing the barcode adds exactly one to the contig's \<open>barcodesIntersect\<close>
  and exactly one to its \<open>barcodesUnion\<close>; when it has them at exactly one end, it adds
  exactly one to \<open>barcodesUnion\<close> and nothing to \<open>barcodesIntersect\<close>. For a barcode at
  both ends the two increments are made by the update for the head entry, and the update
  for the tail entry leaves both counters as they are. The counters
  before and after the barcode are those of the runs over the barcodes before it and
  up to it; a contig without a sample counts zero.
\<close>

theorem calcDistSamples_barcode_contribution:
  assumes "distinct (map fst contigToCount)"
    and "map_of indexMultMap index = Some indexMult"
    and "\<not> (indexMult <s min_mult params \<or> max_mult params <s indexMult)"
    and "calcDistSamples imap contigToLength indexMultMap params distSamples = Inr before"
    and "calcDistSamples (imap @ [(index, contigToCount)]) contigToLength indexMultMap params
           distSamples = Inr after"
    and "lengthOK params contigToLength contigID"
  shows "(foundOther params contigToCount (contigID, True)
          \<and> foundOther params contigToCount (contigID, False) \<longrightarrow>
            DistSample.barcodesIntersect (sampleOf after contigID) =
              DistSample.barcodesIntersect (sampleOf before contigID) + 1
            \<and> DistSample.barcodesUnion (sampleOf after contigID) =
              DistSample.barcodesUnion (sampleOf before contigID) + 1)
       \<and> (foundOther params contigToCount (contigID, True)
            \<noteq> foundOther params contigToCount (contigID, False) \<longrightarrow>
            DistSample.barcodesUnion (sampleOf after contigID) =
              DistSample.barcodesUnion (sampleOf before contigID) + 1
            \<and> DistSample.barcodesIntersect (sampleOf after contigID) =
              DistSample.barcodesIntersect (sampleOf before contigID))
       \<and> (\<forall>d s.
            DistSample.barcodesIntersect (countSample True True d s) =
              DistSample.barcodesIntersect s + 1
            \<and> DistSample.barcodesUnion (countSample True True d s) =
              DistSample.barcodesUnion s + 1
            \<and> DistSample.barcodesIntersect (countSample False True d s) =
              DistSample.barcodesIntersect s
            \<and> DistSample.barcodesUnion (countSample False True d s) =
              DistSample.barcodesUnion s)"
proof -
  have "sampleContigs contigToLength params contigToCount contigToCount before = Inr after"
    using assms(4,5) calcDistSamples_single [OF assms(2,3)]
    by (simp add: calcDistSamples_append del: calcDistSamples.simps)
  from sampleContigs_effect [OF assms(1) this, of contigID] assms(6)
  have "foundOther params contigToCount (contigID, True)
        \<or> foundOther params contigToCount (contigID, False) \<Longrightarrow>
        sampleOf after contigID =
          tally params contigToLength contigToCount contigToCount contigID
            (sampleOf before contigID)"
    by (simp add: sampleOf_def)
  then show ?thesis
    by (auto simp: tally_def Let_def)
qed

theorem calcDistSamples_barcode_contribution_witness:
  "calcDistSamples [(''BX1'', [((''C1'', True), 5), ((''C1'', False), 5)])]
     scenarioLengths scenarioMult scenarioParams [] =
   Inr [(''C1'', \<lparr>distance = 100, barcodesHead = 1, barcodesTail = 1,
           DistSample.barcodesUnion = 1, DistSample.barcodesIntersect = 1\<rparr>)]
   \<and> calcDistSamples ([(''BX1'', [((''C1'', True), 5), ((''C1'', False), 5)])]
        @ [(''BX2'', [((''C1'', True), 4)])])
     scenarioLengths scenarioMult scenarioParams [] =
   Inr [(''C1'', \<lparr>distance = 100, barcodesHead = 2, barcodesTail = 1,
           DistSample.barcodesUnion = 2, DistSample.barcodesIntersect = 1\<rparr>)]
   \<and> foundOther scenarioParams [((''C1'', True), 4)] (''C1'', True)
   \<and> \<not> foundOther scenarioParams [((''C1'', True), 4)] (''C1'', False)
   \<and> DistSample.barcodesUnion (sampleOf
        [(''C1'', \<lparr>distance = 100, barcodesHead = 2, barcodesTail = 1,
           DistSample.barcodesUnion = 2, DistSample.barcodesIntersect = 1\<rparr>)] ''C1'') =
      DistSample.barcodesUnion (sampleOf
        [(''C1'', \<lparr>distance = 100, barcodesHead = 1, barcodesTail = 1,
           DistSample.barcodesUnion = 1, DistSample.barcodesIntersect = 1\<rparr>)] ''C1'') + 1"
proof -
  have h1: "distinct (map fst [((''C1'', True), 4 :: c_int)])"
    by simp
  have h2: "map_of scenarioMult ''BX2'' = Some 1"
    by (simp add: scenarioMult_def)
  have h3: "\<not> ((1 :: c_int) <s min_mult scenarioParams \<or> max_mult scenarioParams <s 1)"
    by (simp add: scenarioParams_def word_sless_alt)
  have h4: "calcDistSamples [(''BX1'', [((''C1'', True), 5), ((''C1'', False), 5)])]
       scenarioLengths scenarioMult scenarioParams [] =
     Inr [(''C1'', \<lparr>distance = 100, barcodesHead = 1, barcodesTail = 1,
           DistSample.barcodesUnion = 1, DistSample.barcodesIntersect = 1\<rparr>)]"
    by (rule scenarioA)
  have h5: "calcDistSamples ([(''BX1'', [((''C1'', True), 5), ((''C1'', False), 5)])]
        @ [(''BX2'', [((''C1'', True), 4)])])
       scenarioLengths scenarioMult scenarioParams [] =
     Inr [(''C1'', \<lparr>distance = 100, barcodesHead = 2, barcodesTail = 1,
           DistSample.barcodesUnion = 2, DistSample.barcodesIntersect = 1\<rparr>)]"
    using scenarioB by (simp add: scenarioEvidence_def del: calcDistSamples.simps)
  have h6: "lengthOK scenarioParams scenarioLengths ''C1''"
    by (simp add: lengthOK_def scenarioParams_def scenarioLengths_def to_unsigned_def)
  have f: "foundOther scenarioParams [((''C1'', True), 4)] (''C1'', True)
      \<and> \<not> foundOther scenarioParams [((''C1'', True), 4)] (''C1'', False)"
    by (simp add: foundOther_def scenarioParams_def word_sle_eq)
  from calcDistSamples_barcode_contribution [OF h1 h2 h3 h4 h5 h6] f h4 h5
  show ?thesis
    by simp
qed



text \<open>
  Claim C10. Every sample of the map that \<open>calcDistSamples\<close> builds from the empty map
  satisfies \<open>barcodesHead + barcodesTail = barcodesUnion + barcodesIntersect\<close>.
\<close>

theorem calcDistSamples_counters_balance:
  assumes "\<forall>b \<in> set imap. distinct (map fst (snd b))"
    and "calcDistSamples imap contigToLength indexMultMap params [] = Inr distSamples"
    and "(contigID, sample) \<in> set distSamples"
  shows "barcodesHead sample + barcodesTail sample =
     DistSample.barcodesUnion sample + DistSample.barcodesIntersect sample"
  using calcDistSamples_member_sampleInv [OF assms]
  by (simp add: sampleInv_def countersBalanced_def)

theorem calcDistSamples_counters_balance_witness:
  "calcDistSamples scenarioEvidence scenarioLengths scenarioMult scenarioParams [] =
     Inr [(''C1'', \<lparr>distance = 100, barcodesHead = 2, barcodesTail = 1,
           DistSample.barcodesUnion = 2, DistSample.barcodesIntersect = 1\<rparr>)]
   \<and> (2 :: nat) + 1 = 2 + 1"
proof -
  have h1: "\<forall>b \<in> set scenarioEvidence. distinct (map fst (snd b))"
    by (simp add: scenarioEvidence_def)
  have h3: "(''C1'', \<lparr>distance = 100, barcodesHead = 2, barcodesTail = 1,
           DistSample.barcodesUnion = 2, DistSample.barcodesIntersect = 1\<rparr>)
      \<in> set [(''C1'', \<lparr>distance = 100, barcodesHead = 2, barcodesTail = 1,
           DistSample.barcodesUnion = 2, DistSample.barcodesIntersect = 1\<rparr>)]"
    by simp
  from calcDistSamples_counters_balance [OF h1 scenarioB h3] scenarioB
  show ?thesis
    by simp
qed

text \<open>
  The counters of the samples are bounded by the number of barcodes: one barcode adds at
  most one to each counter of a sample. With fewer than \<open>2 ^ 32\<close> barcodes no
  \<open>unsigned\<close> counter of the code wraps around.
\<close>

lemma tally_whole_le:
  "barcodesHead (tally params contigToLength m m c s) \<le> barcodesHead s + 1
   \<and> barcodesTail (tally params contigToLength m m c s) \<le> barcodesTail s + 1
   \<and> DistSample.barcodesUnion (tally params contigToLength m m c s)
       \<le> DistSample.barcodesUnion s + 1
   \<and> DistSample.barcodesIntersect (tally params contigToLength m m c s)
       \<le> DistSample.barcodesIntersect s + 1"
  by (simp add: tally_def Let_def)

lemma countersBelow_init: "countersBelow n DistSample_init"
  by (simp add: countersBelow_def DistSample_init_def)

lemma sampleContigs_countersBelow:
  assumes "distinct (map fst m)"
    and "sampleContigs contigToLength params m m ds = Inr ds'"
    and "\<forall>c s. map_of ds c = Some s \<longrightarrow> countersBelow n s"
  shows "\<forall>c s. map_of ds' c = Some s \<longrightarrow> countersBelow (Suc n) s"
proof (intro allI impI)
  fix c s
  assume s: "map_of ds' c = Some s"
  have old: "countersBelow n (sampleOf ds c)"
    using assms(3) by (auto simp: sampleOf_def countersBelow_init split: option.splits)
  note eff = sampleContigs_effect [OF assms(1,2), of c]
  show "countersBelow (Suc n) s"
  proof (cases "lengthOK params contigToLength c
         \<and> (foundOther params m (c, True) \<or> foundOther params m (c, False))")
    case True
    with eff s have "s = tally params contigToLength m m c (sampleOf ds c)"
      by simp
    with old tally_whole_le [of params contigToLength m c "sampleOf ds c"] show ?thesis
      by (simp add: countersBelow_def)
  next
    case False
    with eff s have "map_of ds c = Some s"
      by auto
    with assms(3) have "countersBelow n s"
      by blast
    then show ?thesis
      by (simp add: countersBelow_def)
  qed
qed

lemma calcDistSamples_countersBelow:
  assumes "\<forall>b \<in> set imap. distinct (map fst (snd b))"
    and "calcDistSamples imap contigToLength indexMultMap params ds = Inr ds'"
    and "\<forall>c s. map_of ds c = Some s \<longrightarrow> countersBelow n s"
  shows "\<forall>c s. map_of ds' c = Some s \<longrightarrow> countersBelow (n + length imap) s"
  using assms
proof (induction imap arbitrary: ds n)
  case Nil
  then show ?case by simp
next
  case (Cons b imap)
  obtain index m where b: "b = (index, m)" by (cases b)
  from Cons.prems(1) have dm: "distinct (map fst m)"
    and rest: "\<forall>b \<in> set imap. distinct (map fst (snd b))"
    by (simp_all add: b)
  from Cons.prems(2) obtain k where k: "map_of indexMultMap index = Some k"
    by (auto simp: b split: option.splits)
  have up: "\<forall>c s. map_of ds c = Some s \<longrightarrow> countersBelow (Suc n) s"
    using Cons.prems(3) by (auto simp: countersBelow_def le_SucI)
  show ?case
  proof (cases "k <s min_mult params \<or> max_mult params <s k")
    case True
    with Cons.prems(2) k
    have "calcDistSamples imap contigToLength indexMultMap params ds = Inr ds'"
      by (simp add: b)
    from Cons.IH [OF rest this up] show ?thesis
      by simp
  next
    case False
    with Cons.prems(2) k obtain ds1 where
      one: "sampleContigs contigToLength params m m ds = Inr ds1" and
      more: "calcDistSamples imap contigToLength indexMultMap params ds1 = Inr ds'"
      by (auto simp: b split: sum.splits)
    from Cons.IH [OF rest more sampleContigs_countersBelow [OF dm one Cons.prems(3)]]
    show ?thesis
      by simp
  qed
qed

lemma calcDistSamples_counters_bounded:
  assumes "\<forall>b \<in> set imap. distinct (map fst (snd b))"
    and "calcDistSamples imap contigToLength indexMultMap params [] = Inr distSamples"
    and "map_of distSamples contigID = Some sample"
  shows "barcodesHead sample \<le> length imap \<and> barcodesTail sample \<le> length imap
     \<and> DistSample.barcodesUnion sample \<le> length imap
     \<and> DistSample.barcodesIntersect sample \<le> length imap"
proof -
  have "\<forall>c s. map_of ([] :: DistSampleMap) c = Some s \<longrightarrow> countersBelow 0 s"
    by simp
  from calcDistSamples_countersBelow [OF assms(1,2) this] assms(3)
  show ?thesis
    by (simp add: countersBelow_def)
qed

section \<open>Properties of the calibration index\<close>

lemma map_insert_keys:
  "set (map fst (map_insert (k, v) m)) = insert k (set (map fst m))"
proof (induction m)
  case Nil
  show ?case by simp
next
  case (Cons e m)
  obtain k' v' where e: "e = (k', v')" by (cases e)
  from Cons.IH show ?case
    by (simp add: e insert_commute)
qed

lemma map_insert_sorted:
  "sorted_wrt (<) (map fst m) \<Longrightarrow> sorted_wrt (<) (map fst (map_insert (k, v) m))"
proof (induction m)
  case Nil
  then show ?case by simp
next
  case (Cons e m)
  obtain k' v' where e: "e = (k', v')" by (cases e)
  from Cons.prems have tl: "sorted_wrt (<) (map fst m)" and hd: "\<forall>x \<in> set (map fst m). k' < x"
    by (simp_all add: e)
  have "\<forall>x \<in> set (map fst (map_insert (k, v) m)). k' < x" if "k' < k"
    using that hd by (simp only: map_insert_keys) simp
  with Cons.IH [OF tl] hd tl show ?case
    by (auto simp: e)
qed

lemma map_insert_lookup:
  "sorted_wrt (<) (map fst m) \<Longrightarrow>
   map_of (map_insert (k, v) m) =
     (case map_of m k of None \<Rightarrow> (map_of m)(k \<mapsto> v) | Some old \<Rightarrow> map_of m)"
proof (induction m)
  case Nil
  then show ?case by simp
next
  case (Cons e m)
  obtain k' v' where e: "e = (k', v')" by (cases e)
  from Cons.prems have tl: "sorted_wrt (<) (map fst m)" and hd: "\<forall>x \<in> set (map fst m). k' < x"
    by (simp_all add: e)
  have absent: "map_of m k = None" if "k < k'"
  proof -
    have "k \<notin> set (map fst m)" using that hd by auto
    then show ?thesis by (simp add: map_of_eq_None_iff)
  qed
  show ?case
  proof (cases "k < k'")
    case True
    then show ?thesis using absent by (auto simp: e)
  next
    case False
    then show ?thesis
      using Cons.IH [OF tl] by (auto simp: e fun_eq_iff split: option.splits)
  qed
qed

text \<open>
  The index after \<open>buildJaccardToDist\<close>, started from an ordered index: ordered, and a
  key finds the entry the index had for it before, or else the first sample visited
  with that key.
\<close>

lemma buildJaccardToDist_effect:
  assumes "buildJaccardToDist distSamples idx0 = Inr idx"
    and "sorted_wrt (<) (map fst idx0)"
  shows "sorted_wrt (<) (map fst idx)
     \<and> map_of idx = map_of (idx0 @ map (\<lambda>(c, s). (jaccardOf s, s)) distSamples)"
  using assms
proof (induction distSamples arbitrary: idx0)
  case Nil
  then show ?case by simp
next
  case (Cons e distSamples)
  obtain c s where e: "e = (c, s)" by (cases e)
  from Cons.prems(1) have
    rest: "buildJaccardToDist distSamples (map_insert (jaccardOf s, s) idx0) = Inr idx"
    by (simp add: e split: if_splits)
  have srt: "sorted_wrt (<) (map fst (map_insert (jaccardOf s, s) idx0))"
    using Cons.prems(2) by (rule map_insert_sorted)
  have "map_of (map_insert (jaccardOf s, s) idx0 @ map (\<lambda>(c, s). (jaccardOf s, s)) distSamples) =
        map_of (idx0 @ (jaccardOf s, s) # map (\<lambda>(c, s). (jaccardOf s, s)) distSamples)"
    by (auto simp: map_insert_lookup [OF Cons.prems(2)] map_add_def fun_eq_iff
        split: option.splits)
  with Cons.IH [OF rest srt] show ?case
    by (simp add: e)
qed

lemma sorted_keys_length:
  fixes m :: JaccardToDist
  assumes "sorted_wrt (<) (map fst m)"
  shows "length m = card (fst ` set m)"
proof -
  have "distinct (map fst m)"
    using assms by (simp add: strict_sorted_iff)
  then have "card (set (map fst m)) = length (map fst m)"
    by (rule distinct_card)
  then show ?thesis by simp
qed

text \<open>
  Claim C2, as the code has it. The index built from the empty index is ordered by key
  without repeated keys. A key of the index leads to the first sample visited that has
  this key; the samples visited later with the same key are not stored. The number of
  entries is the number of distinct keys among the samples, which is at most the number
  of samples.
\<close>

theorem buildJaccardToDist_one_sample_per_key:
  assumes "buildJaccardToDist distSamples [] = Inr idx"
  shows "sorted_wrt (<) (map fst idx)
     \<and> map_of idx = map_of (map (\<lambda>(c, s). (jaccardOf s, s)) distSamples)
     \<and> length idx = card ((\<lambda>(c, s). jaccardOf s) ` set distSamples)
     \<and> length idx \<le> length distSamples"
proof -
  from buildJaccardToDist_effect [OF assms] have
    srt: "sorted_wrt (<) (map fst idx)" and
    look: "map_of idx = map_of (map (\<lambda>(c, s). (jaccardOf s, s)) distSamples)"
    by simp_all
  have "fst ` set idx = dom (map_of idx)"
    by (simp add: dom_map_of_conv_image_fst)
  also have "\<dots> = fst ` set (map (\<lambda>(c, s). (jaccardOf s, s)) distSamples)"
    by (simp only: look dom_map_of_conv_image_fst)
  also have "\<dots> = (\<lambda>(c, s). jaccardOf s) ` set distSamples"
    by (force simp: image_iff)
  finally have keys: "fst ` set idx = (\<lambda>(c, s). jaccardOf s) ` set distSamples" .
  have len: "length idx = card ((\<lambda>(c, s). jaccardOf s) ` set distSamples)"
    using sorted_keys_length [OF srt] keys by simp
  have "card ((\<lambda>(c, s). jaccardOf s) ` set distSamples) \<le> card (set distSamples)"
    by (rule card_image_le) simp
  also have "\<dots> \<le> length distSamples"
    by (rule card_length)
  finally show ?thesis
    using srt look len by simp
qed

lemma buildJaccardToDist_tiedSamples:
  "buildJaccardToDist tiedSamples [] =
     Inr [(1, \<lparr>distance = 100, barcodesHead = 1, barcodesTail = 1,
         DistSample.barcodesUnion = 1, DistSample.barcodesIntersect = 1\<rparr>)]"
  by (simp add: tiedSamples_def jaccardOf_def)

theorem buildJaccardToDist_one_sample_per_key_witness:
  "buildJaccardToDist tiedSamples [] =
     Inr [(1, \<lparr>distance = 100, barcodesHead = 1, barcodesTail = 1,
         DistSample.barcodesUnion = 1, DistSample.barcodesIntersect = 1\<rparr>)]
   \<and> length [(1 :: c_double, \<lparr>distance = 100, barcodesHead = 1, barcodesTail = 1,
         DistSample.barcodesUnion = 1, DistSample.barcodesIntersect = 1\<rparr>)]
      = card ((\<lambda>(c, s). jaccardOf s) ` set tiedSamples)"
  using buildJaccardToDist_one_sample_per_key [OF buildJaccardToDist_tiedSamples]
    buildJaccardToDist_tiedSamples
  by simp

text \<open>
  The claim as the spec states it fails: two samples with the same Jaccard key are
  given, and one entry is stored.
\<close>

theorem buildJaccardToDist_drops_tie:
  "buildJaccardToDist tiedSamples [] =
     Inr [(1, \<lparr>distance = 100, barcodesHead = 1, barcodesTail = 1,
         DistSample.barcodesUnion = 1, DistSample.barcodesIntersect = 1\<rparr>)]
   \<and> length [(1 :: c_double, \<lparr>distance = 100, barcodesHead = 1, barcodesTail = 1,
         DistSample.barcodesUnion = 1, DistSample.barcodesIntersect = 1\<rparr>)]
      \<noteq> length tiedSamples"
  by (simp add: tiedSamples_def jaccardOf_def)

section \<open>Properties of the pair statistics builder\<close>

lemma orientationOf_iff:
  "i < NUM_ORIENTATIONS \<Longrightarrow>
   orientationOf head1 head2 = i \<longleftrightarrow> head1 = head1_of i \<and> head2 = head2_of i"
  by (auto simp: orientationOf_def head1_of_def head2_of_def NUM_ORIENTATIONS_def)

lemma orientationOf_less: "orientationOf head1 head2 < NUM_ORIENTATIONS"
  by (simp add: orientationOf_def NUM_ORIENTATIONS_def)

lemma recordsOf_update:
  "recordsOf (AList.update pair rs pmap) p = (if p = pair then rs else recordsOf pmap p)"
  by (simp add: recordsOf_def update_conv')

lemma recordsOf_fill:
  "recordsOf (if map_of pmap pair = None
              then AList.update pair (replicate NUM_ORIENTATIONS PairRecord_init) pmap
              else pmap) p = recordsOf pmap p"
  by (auto simp: recordsOf_def update_conv')

lemma countPair_miss:
  assumes "countPair contigToLength params (id1, head1) ((id2, head2), pairs2) pmap = Inr pmap'"
    and "\<not> pairHit contigToLength params id1 id2 pairs2"
  shows "pmap' = pmap"
  using assms
  by (auto simp: countPair_def pairHit_def split: option.splits sum.splits if_splits)

lemma countPair_hit:
  assumes "pairHit contigToLength params id1 id2 pairs2"
  shows "countPair contigToLength params (id1, head1) ((id2, head2), pairs2) pmap =
     Inr (AList.update (id1, id2)
            (bumpIntersect (orientationOf head1 head2) (recordsOf pmap (id1, id2)))
            (if map_of pmap (id1, id2) = None
             then AList.update (id1, id2) (replicate NUM_ORIENTATIONS PairRecord_init) pmap
             else pmap))"
  using assms
  by (simp add: countPair_def pairHit_def bumpIntersect_def Let_def recordsOf_fill
      del: AList.update.simps split: option.splits)

lemma countPair_recordsOf:
  assumes "countPair contigToLength params (id1, head1) ((id2, head2), pairs2) pmap = Inr pmap'"
  shows "recordsOf pmap' p =
     (if pairHit contigToLength params id1 id2 pairs2 \<and> p = (id1, id2)
      then bumpIntersect (orientationOf head1 head2) (recordsOf pmap p)
      else recordsOf pmap p)"
proof (cases "pairHit contigToLength params id1 id2 pairs2")
  case True
  define pmap1 where "pmap1 =
     (if map_of pmap (id1, id2) = None
      then AList.update (id1, id2) (replicate NUM_ORIENTATIONS PairRecord_init) pmap
      else pmap)"
  define rs where "rs = bumpIntersect (orientationOf head1 head2) (recordsOf pmap (id1, id2))"
  have "Inr pmap' = (Inr (AList.update (id1, id2) rs pmap1) :: error + PairMap)"
    unfolding pmap1_def rs_def assms [symmetric] by (rule countPair_hit [OF True])
  then have "pmap' = AList.update (id1, id2) rs pmap1"
    by (simp only: sum.inject)
  then have "recordsOf pmap' p = (if p = (id1, id2) then rs else recordsOf pmap1 p)"
    by (simp only: recordsOf_update)
  moreover have "recordsOf pmap1 p = recordsOf pmap p"
    unfolding pmap1_def by (rule recordsOf_fill)
  ultimately show ?thesis
    using True by (simp add: rs_def)
next
  case False
  with countPair_miss [OF assms] show ?thesis by simp
qed

lemma countPair_distinct:
  assumes "countPair contigToLength params end1 entry2 pmap = Inr pmap'"
    and "distinct (map fst pmap)"
  shows "distinct (map fst pmap')"
  using assms
  by (cases end1; cases entry2)
     (auto simp: countPair_def Let_def distinct_update
      split: option.splits sum.splits if_splits prod.splits)


lemma bumpIntersect_length [simp]: "length (bumpIntersect j rs) = length rs"
  by (simp add: bumpIntersect_def)

lemma bumpIntersect_nth:
  "i < length rs \<Longrightarrow>
   PairRecord.barcodesIntersect (bumpIntersect j rs ! i) =
     PairRecord.barcodesIntersect (rs ! i) + (if i = j then 1 else 0)"
  by (simp add: bumpIntersect_def nth_list_update)

lemma pairHit_validEntry:
  "pairHit contigToLength params id1 id2 pairs2 \<longleftrightarrow>
     validEntry contigToLength params id2 pairs2 \<and> \<not> id2 < id1"
  by (simp add: pairHit_def validEntry_def split: option.splits)

lemma qualifiedEnd_Cons:
  "qualifiedEnd params contigToLength (((c, h), v) # es) k =
     (if k = (c, h) then validEntry contigToLength params c v
      else qualifiedEnd params contigToLength es k)"
  by (simp add: qualifiedEnd_def validEntry_def)

lemma qualifiedEnd_Nil [simp]: "\<not> qualifiedEnd params contigToLength [] k"
  by (simp add: qualifiedEnd_def)

lemma qualifiedEnd_absent:
  "k \<notin> fst ` set es \<Longrightarrow> \<not> qualifiedEnd params contigToLength es k"
  by (simp add: qualifiedEnd_def map_of_eq_None_iff [THEN iffD2])

lemma countPair_lengths:
  assumes "countPair contigToLength params (id1, head1) ((id2, head2), pairs2) pmap = Inr pmap'"
    and "\<forall>p. length (recordsOf pmap p) = NUM_ORIENTATIONS"
  shows "\<forall>p. length (recordsOf pmap' p) = NUM_ORIENTATIONS"
  using assms(2) by (simp add: countPair_recordsOf [OF assms(1)])

lemma countPair_intersectOf:
  assumes "countPair contigToLength params (id1, head1) ((id2, head2), pairs2) pmap = Inr pmap'"
    and "\<forall>p. length (recordsOf pmap p) = NUM_ORIENTATIONS"
    and "i < NUM_ORIENTATIONS"
  shows "intersectOf pmap' (a, b) i =
     intersectOf pmap (a, b) i +
       (if pairHit contigToLength params id1 id2 pairs2 \<and> (a, b) = (id1, id2)
           \<and> orientationOf head1 head2 = i
        then 1 else 0)"
proof -
  have len: "i < length (recordsOf pmap (a, b))"
    using assms(2,3) by simp
  show ?thesis
  proof (cases "pairHit contigToLength params id1 id2 pairs2 \<and> (a, b) = (id1, id2)")
    case True
    then have "recordsOf pmap' (a, b) =
        bumpIntersect (orientationOf head1 head2) (recordsOf pmap (a, b))"
      by (simp add: countPair_recordsOf [OF assms(1)])
    then show ?thesis
      using True bumpIntersect_nth [OF len, of "orientationOf head1 head2"]
      by (simp add: intersectOf_def eq_commute)
  next
    case False
    then have "recordsOf pmap' (a, b) = recordsOf pmap (a, b)"
      by (auto simp: countPair_recordsOf [OF assms(1)])
    then show ?thesis
      using False by (auto simp: intersectOf_def)
  qed
qed

lemma countPairs_effect:
  assumes "distinct (map fst es2)"
    and "countPairs contigToLength params (id1, head1) es2 pmap = Inr pmap'"
    and "\<forall>p. length (recordsOf pmap p) = NUM_ORIENTATIONS"
  shows "(\<forall>p. length (recordsOf pmap' p) = NUM_ORIENTATIONS)
     \<and> (\<forall>a b i. i < NUM_ORIENTATIONS \<longrightarrow>
          intersectOf pmap' (a, b) i =
            intersectOf pmap (a, b) i +
              (if a = id1 \<and> head1 = head1_of i \<and> \<not> b < a
                  \<and> qualifiedEnd params contigToLength es2 (b, head2_of i)
               then 1 else 0))"
  using assms
proof (induction es2 arbitrary: pmap)
  case Nil
  then show ?case by simp
next
  case (Cons e es2)
  obtain id2 head2 pairs2 where e: "e = ((id2, head2), pairs2)"
    by (metis surj_pair)
  from Cons.prems(2) obtain pmap1 where
    step: "countPair contigToLength params (id1, head1) ((id2, head2), pairs2) pmap = Inr pmap1"
    and rest: "countPairs contigToLength params (id1, head1) es2 pmap1 = Inr pmap'"
    by (auto simp: e split: sum.splits)
  from Cons.prems(1) have dist: "distinct (map fst es2)" and fresh: "(id2, head2) \<notin> fst ` set es2"
    by (auto simp: e)
  have len1: "\<forall>p. length (recordsOf pmap1 p) = NUM_ORIENTATIONS"
    using countPair_lengths [OF step Cons.prems(3)] .
  note IH = Cons.IH [OF dist rest len1]
  have "intersectOf pmap' (a, b) i =
          intersectOf pmap (a, b) i +
            (if a = id1 \<and> head1 = head1_of i \<and> \<not> b < a
                \<and> qualifiedEnd params contigToLength (e # es2) (b, head2_of i)
             then 1 else 0)" if i: "i < NUM_ORIENTATIONS" for a b i
  proof -
    have one: "intersectOf pmap1 (a, b) i =
        intersectOf pmap (a, b) i +
          (if pairHit contigToLength params id1 id2 pairs2 \<and> (a, b) = (id1, id2)
              \<and> orientationOf head1 head2 = i
           then 1 else 0)"
      using countPair_intersectOf [OF step Cons.prems(3) i] .
    have more: "intersectOf pmap' (a, b) i =
        intersectOf pmap1 (a, b) i +
          (if a = id1 \<and> head1 = head1_of i \<and> \<not> b < a
              \<and> qualifiedEnd params contigToLength es2 (b, head2_of i)
           then 1 else 0)"
      using IH i by blast
    show ?thesis
    proof (cases "(b, head2_of i) = (id2, head2)")
      case True
      then have b: "b = id2" and h2: "head2 = head2_of i"
        by simp_all
      have nq: "\<not> qualifiedEnd params contigToLength es2 (b, head2_of i)"
        using fresh qualifiedEnd_absent [of "(id2, head2)" es2] by (simp add: b h2)
      have q: "qualifiedEnd params contigToLength (e # es2) (b, head2_of i) =
          validEntry contigToLength params id2 pairs2"
        by (simp add: e qualifiedEnd_Cons b h2)
      have o: "orientationOf head1 head2 = i \<longleftrightarrow> head1 = head1_of i"
        using orientationOf_iff [OF i, of head1 head2] h2 by simp
      have "(pairHit contigToLength params id1 id2 pairs2 \<and> (a, b) = (id1, id2)
              \<and> orientationOf head1 head2 = i) \<longleftrightarrow>
            (a = id1 \<and> head1 = head1_of i \<and> \<not> b < a
              \<and> validEntry contigToLength params id2 pairs2)"
        unfolding pairHit_validEntry o using b by auto
      with one more nq q show ?thesis
        by simp
    next
      case False
      then have q: "qualifiedEnd params contigToLength (e # es2) (b, head2_of i) =
          qualifiedEnd params contigToLength es2 (b, head2_of i)"
        by (auto simp: e qualifiedEnd_Cons)
      have "\<not> ((a, b) = (id1, id2) \<and> orientationOf head1 head2 = i)"
        using False orientationOf_iff [OF i, of head1 head2] by auto
      with one more q show ?thesis
        by simp
    qed
  qed
  moreover have "\<forall>p. length (recordsOf pmap' p) = NUM_ORIENTATIONS"
    using IH by blast
  ultimately show ?case by blast
qed

lemma countOf_countEnd:
  "countOf (countEnd k cnt) k' = countOf cnt k' + (if k' = k then 1 else 0)"
  by (simp add: countOf_def countEnd_def update_conv')

lemma countEnd_positive:
  assumes "\<forall>k n. map_of cnt k = Some n \<longrightarrow> 0 < n"
  shows "\<forall>k n. map_of (countEnd k0 cnt) k = Some n \<longrightarrow> 0 < n"
  using assms by (auto simp: countEnd_def update_conv')

lemma countEnds_effect:
  assumes "distinct (map fst es1)"
    and "distinct (map fst m)"
    and "countEnds contigToLength params m es1 (cnt, pmap) = Inr (cnt', pmap')"
    and "\<forall>p. length (recordsOf pmap p) = NUM_ORIENTATIONS"
  shows "(\<forall>p. length (recordsOf pmap' p) = NUM_ORIENTATIONS)
     \<and> (\<forall>k. countOf cnt' k =
              countOf cnt k + (if qualifiedEnd params contigToLength es1 k then 1 else 0))
     \<and> (\<forall>a b i. i < NUM_ORIENTATIONS \<longrightarrow>
          intersectOf pmap' (a, b) i =
            intersectOf pmap (a, b) i +
              (if qualifiedEnd params contigToLength es1 (a, head1_of i) \<and> \<not> b < a
                  \<and> qualifiedEnd params contigToLength m (b, head2_of i)
               then 1 else 0))"
  using assms(1,3,4)
proof (induction es1 arbitrary: cnt pmap)
  case Nil
  then show ?case by simp
next
  case (Cons e es1)
  obtain id1 head1 pairs1 where e: "e = ((id1, head1), pairs1)"
    by (metis surj_pair)
  from Cons.prems(1) have dist: "distinct (map fst es1)" and fresh: "(id1, head1) \<notin> fst ` set es1"
    by (auto simp: e)
  have nq: "\<not> qualifiedEnd params contigToLength es1 (id1, head1)"
    using fresh by (rule qualifiedEnd_absent)
  from Cons.prems(2) obtain length1 where l1: "map_of contigToLength id1 = Some length1"
    by (auto simp: e split: option.splits)
  from Cons.prems(2) l1 obtain valid where
    vb: "validBarcodeMapping length1 pairs1 params = Inr valid"
    by (auto simp: e split: sum.splits)
  show ?case
  proof (cases valid)
    case False
    then have nv: "\<not> validEntry contigToLength params id1 pairs1"
      by (simp add: validEntry_def l1 vb)
    from Cons.prems(2) False l1 vb
    have rest: "countEnds contigToLength params m es1 (cnt, pmap) = Inr (cnt', pmap')"
      by (simp add: e)
    from Cons.IH [OF dist rest Cons.prems(3)] nv nq show ?thesis
      by (auto simp: e qualifiedEnd_Cons)
  next
    case True
    then have v: "validEntry contigToLength params id1 pairs1"
      by (simp add: validEntry_def l1 vb)
    from Cons.prems(2) True l1 vb obtain pmap1 where
      inner: "countPairs contigToLength params (id1, head1) m pmap = Inr pmap1" and
      rest: "countEnds contigToLength params m es1 (countEnd (id1, head1) cnt, pmap1) =
               Inr (cnt', pmap')"
      by (auto simp: e Let_def split: sum.splits)
    note E1 = countPairs_effect [OF assms(2) inner Cons.prems(3)]
    then have len1: "\<forall>p. length (recordsOf pmap1 p) = NUM_ORIENTATIONS"
      by simp
    note IH = Cons.IH [OF dist rest len1]
    have c: "countOf cnt' k =
        countOf cnt k + (if qualifiedEnd params contigToLength (e # es1) k then 1 else 0)" for k
    proof -
      have "countOf cnt' k =
          countOf (countEnd (id1, head1) cnt) k
            + (if qualifiedEnd params contigToLength es1 k then 1 else 0)"
        using IH by blast
      then show ?thesis
        using v nq by (cases "k = (id1, head1)") (simp_all add: e qualifiedEnd_Cons countOf_countEnd)
    qed
    have p: "intersectOf pmap' (a, b) i =
        intersectOf pmap (a, b) i +
          (if qualifiedEnd params contigToLength (e # es1) (a, head1_of i) \<and> \<not> b < a
              \<and> qualifiedEnd params contigToLength m (b, head2_of i)
           then 1 else 0)" if i: "i < NUM_ORIENTATIONS" for a b i
    proof -
      have one: "intersectOf pmap1 (a, b) i =
          intersectOf pmap (a, b) i +
            (if a = id1 \<and> head1 = head1_of i \<and> \<not> b < a
                \<and> qualifiedEnd params contigToLength m (b, head2_of i)
             then 1 else 0)"
        using E1 i by blast
      have more: "intersectOf pmap' (a, b) i =
          intersectOf pmap1 (a, b) i +
            (if qualifiedEnd params contigToLength es1 (a, head1_of i) \<and> \<not> b < a
                \<and> qualifiedEnd params contigToLength m (b, head2_of i)
             then 1 else 0)"
        using IH i by blast
      show ?thesis
      proof (cases "(a, head1_of i) = (id1, head1)")
        case True
        then have "\<not> qualifiedEnd params contigToLength es1 (a, head1_of i)"
          using nq by simp
        moreover have "qualifiedEnd params contigToLength (e # es1) (a, head1_of i)"
          using True v by (simp add: e qualifiedEnd_Cons)
        ultimately show ?thesis
          using one more True by auto
      next
        case False
        then have "qualifiedEnd params contigToLength (e # es1) (a, head1_of i) =
            qualifiedEnd params contigToLength es1 (a, head1_of i)"
          by (auto simp: e qualifiedEnd_Cons)
        moreover have "\<not> (a = id1 \<and> head1 = head1_of i)"
          using False by auto
        ultimately show ?thesis
          using one more by simp
      qed
    qed
    have "\<forall>p. length (recordsOf pmap' p) = NUM_ORIENTATIONS"
      using IH by blast
    with c p show ?thesis by blast
  qed
qed

lemma countPairs_distinct:
  assumes "countPairs contigToLength params end1 es2 pmap = Inr pmap'"
    and "distinct (map fst pmap)"
  shows "distinct (map fst pmap')"
  using assms
proof (induction es2 arbitrary: pmap)
  case Nil
  then show ?case by simp
next
  case (Cons e es2)
  then show ?case
    by (auto split: sum.splits dest: countPair_distinct)
qed

lemma countEnds_distinct_positive:
  assumes "countEnds contigToLength params m es1 (cnt, pmap) = Inr (cnt', pmap')"
    and "distinct (map fst pmap)"
    and "\<forall>k n. map_of cnt k = Some n \<longrightarrow> 0 < n"
  shows "distinct (map fst pmap') \<and> (\<forall>k n. map_of cnt' k = Some n \<longrightarrow> 0 < n)"
  using assms
proof (induction es1 arbitrary: cnt pmap)
  case Nil
  then show ?case by simp
next
  case (Cons e es1)
  obtain id1 head1 pairs1 where e: "e = ((id1, head1), pairs1)"
    by (metis surj_pair)
  from Cons.prems(1) obtain length1 where l1: "map_of contigToLength id1 = Some length1"
    by (auto simp: e split: option.splits)
  from Cons.prems(1) l1 obtain valid where
    vb: "validBarcodeMapping length1 pairs1 params = Inr valid"
    by (auto simp: e split: sum.splits)
  show ?case
  proof (cases valid)
    case False
    with Cons.prems(1) l1 vb
    have "countEnds contigToLength params m es1 (cnt, pmap) = Inr (cnt', pmap')"
      by (simp add: e)
    from Cons.IH [OF this Cons.prems(2,3)] show ?thesis .
  next
    case True
    with Cons.prems(1) l1 vb obtain pmap1 where
      inner: "countPairs contigToLength params (id1, head1) m pmap = Inr pmap1" and
      rest: "countEnds contigToLength params m es1 (countEnd (id1, head1) cnt, pmap1) =
               Inr (cnt', pmap')"
      by (auto simp: e Let_def split: sum.splits)
    from Cons.IH [OF rest countPairs_distinct [OF inner Cons.prems(2)]
        countEnd_positive [OF Cons.prems(3)]]
    show ?thesis .
  qed
qed

lemma scanInv_empty: "scanInv ([], [])"
  by (simp add: scanInv_def recordsOf_def intersectOf_def countOf_def PairRecord_init_def)

lemma countEnds_scanInv:
  assumes "distinct (map fst m)"
    and "countEnds contigToLength params m m state = Inr state'"
    and "scanInv state"
  shows "scanInv state'"
proof -
  obtain cnt pmap where s: "state = (cnt, pmap)" by (cases state)
  obtain cnt' pmap' where s': "state' = (cnt', pmap')" by (cases state')
  from assms(3) have
    d: "distinct (map fst pmap)" and
    len: "\<forall>p. length (recordsOf pmap p) = NUM_ORIENTATIONS" and
    pos: "\<forall>k n. map_of cnt k = Some n \<longrightarrow> 0 < n" and
    bnd: "\<And>a b i. i < NUM_ORIENTATIONS \<Longrightarrow>
            intersectOf pmap (a, b) i \<le> countOf cnt (a, head1_of i)
            \<and> intersectOf pmap (a, b) i \<le> countOf cnt (b, head2_of i)"
    by (simp_all add: scanInv_def s)
  have run: "countEnds contigToLength params m m (cnt, pmap) = Inr (cnt', pmap')"
    using assms(2) by (simp add: s s')
  note eff = countEnds_effect [OF assms(1) assms(1) run len]
  note dp = countEnds_distinct_positive [OF run d pos]
  have bnd': "intersectOf pmap' (a, b) i \<le> countOf cnt' (a, head1_of i)
      \<and> intersectOf pmap' (a, b) i \<le> countOf cnt' (b, head2_of i)"
    if i: "i < NUM_ORIENTATIONS" for a b i
  proof -
    have I: "intersectOf pmap' (a, b) i =
        intersectOf pmap (a, b) i +
          (if qualifiedEnd params contigToLength m (a, head1_of i) \<and> \<not> b < a
              \<and> qualifiedEnd params contigToLength m (b, head2_of i)
           then 1 else 0)"
      using eff i by blast
    have A: "countOf cnt' (a, head1_of i) =
        countOf cnt (a, head1_of i)
          + (if qualifiedEnd params contigToLength m (a, head1_of i) then 1 else 0)"
      using eff by blast
    have B: "countOf cnt' (b, head2_of i) =
        countOf cnt (b, head2_of i)
          + (if qualifiedEnd params contigToLength m (b, head2_of i) then 1 else 0)"
      using eff by blast
    from bnd [OF i, of a b] I A B show ?thesis
      by (simp split: if_splits)
  qed
  have "\<forall>p. length (recordsOf pmap' p) = NUM_ORIENTATIONS"
    using eff by blast
  with dp bnd' show ?thesis
    by (simp add: scanInv_def s')
qed

lemma countBarcodes_scanInv:
  assumes "\<forall>b \<in> set imap. distinct (map fst (snd b))"
    and "countBarcodes imap indexMultMap contigToLength params state = Inr state'"
    and "scanInv state"
  shows "scanInv state'"
  using assms
proof (induction imap arbitrary: state)
  case Nil
  then show ?case by simp
next
  case (Cons b imap)
  obtain index m where b: "b = (index, m)" by (cases b)
  from Cons.prems(1) have dm: "distinct (map fst m)"
    and rest: "\<forall>b \<in> set imap. distinct (map fst (snd b))"
    by (simp_all add: b)
  from Cons.prems(2) obtain k where k: "map_of indexMultMap index = Some k"
    by (auto simp: b split: option.splits)
  show ?case
  proof (cases "k <s min_mult params \<or> max_mult params <s k")
    case True
    with Cons.prems(2) k
    have "countBarcodes imap indexMultMap contigToLength params state = Inr state'"
      by (simp add: b)
    from Cons.IH [OF rest this Cons.prems(3)] show ?thesis .
  next
    case False
    with Cons.prems(2) k obtain state1 where
      one: "countEnds contigToLength params m m state = Inr state1" and
      more: "countBarcodes imap indexMultMap contigToLength params state1 = Inr state'"
      by (auto simp: b split: sum.splits)
    from Cons.IH [OF rest more countEnds_scanInv [OF dm one Cons.prems(3)]]
    show ?thesis .
  qed
qed

lemma completeRecord_effect:
  assumes "completeRecord ndebug cnt pair i records = Inr records'"
  shows "i < length records \<and> length records' = length records
     \<and> (\<forall>j. j \<noteq> i \<longrightarrow> records' ! j = records ! j)
     \<and> completed cnt pair i (records ! i) (records' ! i)"
  using assms
  by (cases pair)
     (auto simp: completeRecord_def completed_def head1_of_def head2_of_def Let_def
      split: if_splits option.splits)

lemma completeOrientations_effect:
  assumes "distinct is"
    and "completeOrientations ndebug cnt pair is records = Inr records'"
  shows "length records' = length records
     \<and> (\<forall>i \<in> set is. i < length records \<and> completed cnt pair i (records ! i) (records' ! i))
     \<and> (\<forall>j. j \<notin> set is \<longrightarrow> records' ! j = records ! j)"
  using assms
proof (induction "is" arbitrary: records)
  case Nil
  then show ?case by simp
next
  case (Cons i "is")
  from Cons.prems(2) obtain records1 where
    step: "completeRecord ndebug cnt pair i records = Inr records1" and
    rest: "completeOrientations ndebug cnt pair is records1 = Inr records'"
    by (auto split: sum.splits)
  from Cons.prems(1) have dist: "distinct is" and fresh: "i \<notin> set is"
    by simp_all
  note S = completeRecord_effect [OF step]
  note IH = Cons.IH [OF dist rest]
  have here: "completed cnt pair i (records ! i) (records' ! i)"
    using S IH fresh by simp
  have there: "j < length records \<and> completed cnt pair j (records ! j) (records' ! j)"
    if "j \<in> set is" for j
  proof -
    from that fresh have "j \<noteq> i" by auto
    with S have "records1 ! j = records ! j" by simp
    with IH that S show ?thesis by auto
  qed
  have other: "records' ! j = records ! j" if "j \<notin> set (i # is)" for j
    using that S IH by simp
  from S IH here there other show ?case
    by auto
qed

lemma completePairs_effect:
  assumes "completePairs ndebug cnt pmap = Inr pmap'"
    and "(pair, records') \<in> set pmap'"
  shows "\<exists>records. (pair, records) \<in> set pmap
     \<and> completeOrientations ndebug cnt pair [0 ..< NUM_ORIENTATIONS] records = Inr records'"
  using assms
proof (induction pmap arbitrary: pmap')
  case Nil
  then show ?case by simp
next
  case (Cons e pmap)
  obtain p rs where e: "e = (p, rs)" by (cases e)
  from Cons.prems(1) obtain rs' rest' where
    one: "completeOrientations ndebug cnt p [0 ..< NUM_ORIENTATIONS] rs = Inr rs'" and
    more: "completePairs ndebug cnt pmap = Inr rest'" and
    res: "pmap' = (p, rs') # rest'"
    by (auto simp: e split: sum.splits)
  from Cons.prems(2) res have "(pair, records') = (p, rs') \<or> (pair, records') \<in> set rest'"
    by simp
  then show ?case
  proof
    assume "(pair, records') = (p, rs')"
    with one show ?thesis by (auto simp: e)
  next
    assume "(pair, records') \<in> set rest'"
    from Cons.IH [OF more this] show ?thesis by (auto simp: e)
  qed
qed

lemma unsigned_minus_le: "b \<le> a \<Longrightarrow> unsigned_minus a b = a - b"
  by (simp add: unsigned_minus_def)

lemma jaccardScore_unit:
  assumes "PairRecord.barcodesIntersect r \<le> PairRecord.barcodesUnion r"
    and "0 < PairRecord.barcodesUnion r"
  shows "0 \<le> jaccardScore r \<and> jaccardScore r \<le> 1"
  using assms by (simp add: jaccardScore_def)

text \<open>
  Claim C5. Every record of every pair of the map that \<open>calcContigPairBarcodeStats\<close>
  returns, started from the empty map, has \<open>barcodes1 > 0\<close>, \<open>barcodes2 > 0\<close>,
  \<open>barcodesUnion = barcodes1 + barcodes2 - barcodesIntersect\<close> (a subtraction that
  does not go below zero) and \<open>barcodesUnion \<ge> barcodesIntersect\<close>; so its Jaccard
  score, as \<open>estimateDistance\<close> computes it, lies between \<open>0\<close> and \<open>1\<close> whenever
  \<open>barcodesUnion > 0\<close>. This holds with and without \<open>NDEBUG\<close>.
\<close>

theorem calcContigPairBarcodeStats_record_invariant:
  assumes "\<forall>b \<in> set imap. distinct (map fst (snd b))"
    and "calcContigPairBarcodeStats ndebug imap indexMultMap contigToLength params [] = Inr pmap"
    and "(pair, records) \<in> set pmap"
    and "i < NUM_ORIENTATIONS"
  shows "0 < barcodes1 (records ! i) \<and> 0 < barcodes2 (records ! i)
     \<and> PairRecord.barcodesIntersect (records ! i) \<le> barcodes1 (records ! i) + barcodes2 (records ! i)
     \<and> PairRecord.barcodesUnion (records ! i) =
         barcodes1 (records ! i) + barcodes2 (records ! i)
           - PairRecord.barcodesIntersect (records ! i)
     \<and> PairRecord.barcodesIntersect (records ! i) \<le> PairRecord.barcodesUnion (records ! i)
     \<and> (0 < PairRecord.barcodesUnion (records ! i) \<longrightarrow>
          0 \<le> jaccardScore (records ! i) \<and> jaccardScore (records ! i) \<le> 1)"
proof -
  from assms(2) obtain cnt pmap1 where
    scan: "countBarcodes imap indexMultMap contigToLength params ([], []) = Inr (cnt, pmap1)" and
    fin: "completePairs ndebug cnt pmap1 = Inr pmap"
    by (auto simp: calcContigPairBarcodeStats_def split: sum.splits)
  have inv: "scanInv (cnt, pmap1)"
    using countBarcodes_scanInv [OF assms(1) scan scanInv_empty] .
  from completePairs_effect [OF fin assms(3)] obtain records0 where
    mem: "(pair, records0) \<in> set pmap1" and
    co: "completeOrientations ndebug cnt pair [0 ..< NUM_ORIENTATIONS] records0 = Inr records"
    by blast
  from inv have "distinct (map fst pmap1)"
    by (simp add: scanInv_def)
  with mem have "map_of pmap1 pair = Some records0"
    by simp
  then have r0: "recordsOf pmap1 pair = records0"
    by (simp add: recordsOf_def)
  have "distinct [0 ..< NUM_ORIENTATIONS]"
    by simp
  from completeOrientations_effect [OF this co] assms(4)
  have cmp: "completed cnt pair i (records0 ! i) (records ! i)"
    by simp
  from cmp obtain n1 n2 where
    n1: "map_of cnt (fst pair, head1_of i) = Some n1" and
    n2: "map_of cnt (snd pair, head2_of i) = Some n2" and
    r: "records ! i = (records0 ! i)\<lparr>barcodes1 := n1, barcodes2 := n2,
          PairRecord.barcodesUnion :=
            unsigned_minus (n1 + n2) (PairRecord.barcodesIntersect (records0 ! i))\<rparr>"
    by (auto simp: completed_def split: option.splits)
  from inv n1 n2 have pos: "0 < n1" "0 < n2"
    by (auto simp: scanInv_def)
  from inv have "\<forall>a b i. i < NUM_ORIENTATIONS \<longrightarrow>
      intersectOf pmap1 (a, b) i \<le> countOf cnt (a, head1_of i)
      \<and> intersectOf pmap1 (a, b) i \<le> countOf cnt (b, head2_of i)"
    by (simp add: scanInv_def)
  with assms(4) have
    "intersectOf pmap1 (fst pair, snd pair) i \<le> countOf cnt (fst pair, head1_of i)"
    "intersectOf pmap1 (fst pair, snd pair) i \<le> countOf cnt (snd pair, head2_of i)"
    by blast+
  with r0 n1 n2 have le: "PairRecord.barcodesIntersect (records0 ! i) \<le> n1"
    "PairRecord.barcodesIntersect (records0 ! i) \<le> n2"
    by (simp_all add: intersectOf_def countOf_def)
  then have u: "unsigned_minus (n1 + n2) (PairRecord.barcodesIntersect (records0 ! i)) =
      n1 + n2 - PairRecord.barcodesIntersect (records0 ! i)"
    by (simp add: unsigned_minus_le)
  have fields: "barcodes1 (records ! i) = n1" "barcodes2 (records ! i) = n2"
    "PairRecord.barcodesIntersect (records ! i) = PairRecord.barcodesIntersect (records0 ! i)"
    "PairRecord.barcodesUnion (records ! i) =
       n1 + n2 - PairRecord.barcodesIntersect (records0 ! i)"
    by (simp_all add: r u)
  have iu: "PairRecord.barcodesIntersect (records ! i) \<le> PairRecord.barcodesUnion (records ! i)"
    using le by (simp add: fields)
  from pos le iu jaccardScore_unit [of "records ! i"] show ?thesis
    by (simp add: fields)
qed

lemma pairStatistics_run:
  "calcContigPairBarcodeStats False pairEvidence scenarioMult pairLengths scenarioParams [] =
     Inr pairStatistics"
  by code_simp

theorem calcContigPairBarcodeStats_record_invariant_witness:
  "calcContigPairBarcodeStats False pairEvidence scenarioMult pairLengths scenarioParams [] =
     Inr pairStatistics
   \<and> ((''A'', ''B''), snd (pairStatistics ! 1)) \<in> set pairStatistics
   \<and> barcodes1 (snd (pairStatistics ! 1) ! 0) = 2
   \<and> barcodes2 (snd (pairStatistics ! 1) ! 0) = 1
   \<and> PairRecord.barcodesIntersect (snd (pairStatistics ! 1) ! 0) = 1
   \<and> PairRecord.barcodesUnion (snd (pairStatistics ! 1) ! 0) = 2
   \<and> jaccardScore (snd (pairStatistics ! 1) ! 0) \<le> 1"
proof -
  have h1: "\<forall>b \<in> set pairEvidence. distinct (map fst (snd b))"
    by (simp add: pairEvidence_def)
  have h3: "((''A'', ''B''), snd (pairStatistics ! 1)) \<in> set pairStatistics"
    by (simp add: pairStatistics_def)
  have h4: "0 < NUM_ORIENTATIONS"
    by (simp add: NUM_ORIENTATIONS_def)
  have v: "barcodes1 (snd (pairStatistics ! 1) ! 0) = 2
     \<and> barcodes2 (snd (pairStatistics ! 1) ! 0) = 1
     \<and> PairRecord.barcodesIntersect (snd (pairStatistics ! 1) ! 0) = 1
     \<and> PairRecord.barcodesUnion (snd (pairStatistics ! 1) ! 0) = 2"
    by (simp add: pairStatistics_def)
  from calcContigPairBarcodeStats_record_invariant [OF h1 pairStatistics_run h3 h4]
    pairStatistics_run h3 v
  show ?thesis
    by simp
qed

text \<open>
  Claim C1, at an input where it fails. One barcode with enough read pairs at the head
  of a contig and none at its tail: the pair of the contig with itself gets its four
  records, the second loop reaches the orientation head-tail, the tail is not a key
  of the side table, and \<open>at()\<close> throws.
\<close>

theorem calcContigPairBarcodeStats_missing_end:
  "calcContigPairBarcodeStats False [(''BX1'', [((''A'', True), 5)])] [(''BX1'', 1)]
     [(''A'', 300)] scenarioParams [] = Inl OutOfRange
   \<and> calcContigPairBarcodeStats True [(''BX1'', [((''A'', True), 5)])] [(''BX1'', 1)]
     [(''A'', 300)] scenarioParams [] = Inl OutOfRange"
  by code_simp

text \<open>
  The counters of the side table are bounded by the number of barcodes, and with them
  the shared-barcode counters (by the invariant of the scan): with fewer than \<open>2 ^ 32\<close>
  barcodes no counter of the code wraps around.
\<close>

lemma countBarcodes_countOf_le:
  assumes "\<forall>b \<in> set imap. distinct (map fst (snd b))"
    and "countBarcodes imap indexMultMap contigToLength params (cnt, pmap) = Inr (cnt', pmap')"
    and "\<forall>p. length (recordsOf pmap p) = NUM_ORIENTATIONS"
    and "\<forall>k. countOf cnt k \<le> n"
  shows "(\<forall>p. length (recordsOf pmap' p) = NUM_ORIENTATIONS)
     \<and> (\<forall>k. countOf cnt' k \<le> n + length imap)"
  using assms
proof (induction imap arbitrary: cnt pmap n)
  case Nil
  then show ?case by simp
next
  case (Cons b imap)
  obtain index m where b: "b = (index, m)" by (cases b)
  from Cons.prems(1) have dm: "distinct (map fst m)"
    and rest: "\<forall>b \<in> set imap. distinct (map fst (snd b))"
    by (simp_all add: b)
  from Cons.prems(2) obtain k where k: "map_of indexMultMap index = Some k"
    by (auto simp: b split: option.splits)
  have up: "\<forall>k. countOf cnt k \<le> Suc n"
    using Cons.prems(4) by (simp add: le_SucI)
  show ?case
  proof (cases "k <s min_mult params \<or> max_mult params <s k")
    case True
    with Cons.prems(2) k
    have "countBarcodes imap indexMultMap contigToLength params (cnt, pmap) = Inr (cnt', pmap')"
      by (simp add: b)
    from Cons.IH [OF rest this Cons.prems(3) up] show ?thesis
      by simp
  next
    case False
    with Cons.prems(2) k obtain cnt1 pmap1 where
      one: "countEnds contigToLength params m m (cnt, pmap) = Inr (cnt1, pmap1)" and
      more: "countBarcodes imap indexMultMap contigToLength params (cnt1, pmap1) =
               Inr (cnt', pmap')"
      by (auto simp: b split: sum.splits)
    note eff = countEnds_effect [OF dm dm one Cons.prems(3)]
    have len1: "\<forall>p. length (recordsOf pmap1 p) = NUM_ORIENTATIONS"
      using eff by blast
    have "countOf cnt1 k \<le> Suc n" for k
    proof -
      have "countOf cnt1 k =
          countOf cnt k + (if qualifiedEnd params contigToLength m k then 1 else 0)"
        using eff by blast
      with Cons.prems(4) [rule_format, of k] show ?thesis
        by simp
    qed
    then have "\<forall>k. countOf cnt1 k \<le> Suc n"
      by blast
    from Cons.IH [OF rest more len1 this] show ?thesis
      by simp
  qed
qed

lemma countBarcodes_counters_bounded:
  assumes "\<forall>b \<in> set imap. distinct (map fst (snd b))"
    and "countBarcodes imap indexMultMap contigToLength params ([], []) = Inr (cnt, pmap)"
    and "i < NUM_ORIENTATIONS"
  shows "countOf cnt k \<le> length imap \<and> intersectOf pmap (a, b) i \<le> length imap"
proof -
  have len0: "\<forall>p. length (recordsOf [] p) = NUM_ORIENTATIONS"
    by (simp add: recordsOf_def)
  have cnt0: "\<forall>k. countOf [] k \<le> 0"
    by (simp add: countOf_def)
  have c: "\<forall>k. countOf cnt k \<le> length imap"
    using countBarcodes_countOf_le [OF assms(1,2) len0 cnt0] by simp
  have "scanInv (cnt, pmap)"
    using countBarcodes_scanInv [OF assms(1,2) scanInv_empty] .
  with assms(3) have "intersectOf pmap (a, b) i \<le> countOf cnt (a, head1_of i)"
    by (simp add: scanInv_def)
  with c show ?thesis
    by (meson le_trans)
qed

section \<open>Properties of the distance estimator\<close>

text \<open>
  Claim C4. Whatever the pair record and the parameters, \<open>estimateDistance\<close> returns
  success = false with the zero estimate (\<open>minDist = 0\<close>, \<open>maxDist = 0\<close>,
  \<open>jaccard = 0\<close>) when the calibration index is empty, and also when the record's
  \<open>barcodesUnion\<close> is \<open>0\<close>. Both returns come before the range query and the
  quantiles, so none of their failures can occur.
\<close>

theorem estimateDistance_fails_soft:
  "jaccardToDist = [] \<or> PairRecord.barcodesUnion rec = 0 \<Longrightarrow>
   estimateDistance ndebug rec jaccardToDist params =
     Inr (\<lparr>minDist = 0, maxDist = 0, jaccard = 0\<rparr>, False)"
  by (auto simp: estimateDistance_def DistanceEstimate_init_def Let_def)

theorem estimateDistance_fails_soft_witness:
  "estimateDistance False
     \<lparr>PairRecord.barcodesIntersect = 3, barcodes1 = 10, barcodes2 = 8,
      PairRecord.barcodesUnion = 15\<rparr>
     []
     \<lparr>min_reads = 3, min_mult = 1, max_mult = 10, end_length = 100, dist_bin_size = 1 / 10\<rparr>
   = Inr (\<lparr>minDist = 0, maxDist = 0, jaccard = 0\<rparr>, False)
   \<and> estimateDistance False
     \<lparr>PairRecord.barcodesIntersect = 0, barcodes1 = 0, barcodes2 = 0,
      PairRecord.barcodesUnion = 0\<rparr>
     [(1, DistSample_init)]
     \<lparr>min_reads = 3, min_mult = 1, max_mult = 10, end_length = 100, dist_bin_size = 1 / 10\<rparr>
   = Inr (\<lparr>minDist = 0, maxDist = 0, jaccard = 0\<rparr>, False)"
  using estimateDistance_fails_soft
    [of "[]" "\<lparr>PairRecord.barcodesIntersect = 3, barcodes1 = 10, barcodes2 = 8,
      PairRecord.barcodesUnion = 15\<rparr>" False
      "\<lparr>min_reads = 3, min_mult = 1, max_mult = 10, end_length = 100, dist_bin_size = 1 / 10\<rparr>"]
    estimateDistance_fails_soft
    [of "[(1, DistSample_init)]" "\<lparr>PairRecord.barcodesIntersect = 0, barcodes1 = 0, barcodes2 = 0,
      PairRecord.barcodesUnion = 0\<rparr>" False
      "\<lparr>min_reads = 3, min_mult = 1, max_mult = 10, end_length = 100, dist_bin_size = 1 / 10\<rparr>"]
  by simp

text \<open>
  Claim C3, as the code has it. \<open>estimateDistance\<close> returns success = false exactly
  when the calibration index is empty or the record's \<open>barcodesUnion\<close> is \<open>0\<close>. After
  the range query there is no test of the window: every estimate returned from there
  carries success = true.
\<close>

theorem estimateDistance_false_iff:
  "(\<exists>est. estimateDistance ndebug rec jaccardToDist params = Inr (est, False))
     \<longleftrightarrow> jaccardToDist = [] \<or> PairRecord.barcodesUnion rec = 0"
proof
  assume "\<exists>est. estimateDistance ndebug rec jaccardToDist params = Inr (est, False)"
  then obtain est where r: "estimateDistance ndebug rec jaccardToDist params = Inr (est, False)"
    by blast
  show "jaccardToDist = [] \<or> PairRecord.barcodesUnion rec = 0"
  proof (rule ccontr)
    assume "\<not> (jaccardToDist = [] \<or> PairRecord.barcodesUnion rec = 0)"
    with r show False
      by (auto simp: estimateDistance_def Let_def
          split: if_splits prod.splits sum.splits option.splits)
  qed
next
  assume "jaccardToDist = [] \<or> PairRecord.barcodesUnion rec = 0"
  then show "\<exists>est. estimateDistance ndebug rec jaccardToDist params = Inr (est, False)"
    by (auto simp: estimateDistance_def Let_def)
qed

theorem estimateDistance_false_iff_witness:
  "(\<exists>est. estimateDistance False halfShared [] scenarioParams = Inr (est, False))
   \<and> \<not> (\<exists>est. estimateDistance False halfShared calibration scenarioParams = Inr (est, False))"
  using estimateDistance_false_iff [of False halfShared "[]" scenarioParams]
    estimateDistance_false_iff [of False halfShared calibration scenarioParams]
  by (simp add: halfShared_def calibration_def)

lemma farCalibration_window:
  "filter (\<lambda>e. \<bar>fst e - jaccardScore allShared\<bar> \<le> dist_bin_size scenarioParams) farCalibration
     = []"
  by (simp add: farCalibration_def allShared_def scenarioParams_def jaccardScore_def)

text \<open>
  The claim as the spec states it fails: the index is not empty, \<open>barcodesUnion\<close> is
  positive, no key lies within \<open>\<plusminus>dist_bin_size\<close> of the Jaccard score, and
  \<open>estimateDistance\<close> does not return success = false: it asks for a quantile of an
  empty range.
\<close>

theorem estimateDistance_empty_window:
  "farCalibration \<noteq> []
   \<and> 0 < PairRecord.barcodesUnion allShared
   \<and> filter (\<lambda>e. \<bar>fst e - jaccardScore allShared\<bar> \<le> dist_bin_size scenarioParams)
        farCalibration = []
   \<and> estimateDistance False allShared farCalibration scenarioParams = Inl EmptyQuantile
   \<and> estimateDistance True allShared farCalibration scenarioParams = Inl EmptyQuantile"
proof -
  have "estimateDistance False allShared farCalibration scenarioParams = Inl EmptyQuantile"
    by code_simp
  moreover have "estimateDistance True allShared farCalibration scenarioParams = Inl EmptyQuantile"
    by code_simp
  ultimately show ?thesis
    using farCalibration_window by (simp add: farCalibration_def allShared_def)
qed

text \<open>The range between the two iterators of \<open>closestKeys\<close>, on an ordered index.\<close>

lemma takeWhile_sorted_le:
  fixes m :: JaccardToDist
  assumes "sorted_wrt (<) (map fst m)"
  shows "takeWhile (\<lambda>e. fst e \<le> b) m = filter (\<lambda>e. fst e \<le> b) m"
  using assms
proof (induction m)
  case Nil
  show ?case by simp
next
  case (Cons e m)
  show ?case
  proof (cases "fst e \<le> b")
    case True
    with Cons show ?thesis by simp
  next
    case False
    with Cons.prems have "\<forall>x \<in> set m. \<not> fst x \<le> b"
      by auto
    with False show ?thesis
      by (simp add: filter_empty_conv)
  qed
qed

lemma window_sorted:
  fixes m :: JaccardToDist
  assumes "sorted_wrt (<) (map fst m)"
  shows "drop (length (takeWhile (\<lambda>e. fst e < a) m))
           (take (length (takeWhile (\<lambda>e. fst e \<le> b) m)) m)
         = filter (\<lambda>e. a \<le> fst e \<and> fst e \<le> b) m"
  using assms
proof (induction m)
  case Nil
  show ?case by simp
next
  case (Cons e m)
  from Cons.prems have tl: "sorted_wrt (<) (map fst m)" and hd: "\<forall>x \<in> set m. fst e < fst x"
    by simp_all
  note IH = Cons.IH [OF tl]
  show ?case
  proof (cases "fst e < a")
    case below: True
    show ?thesis
    proof (cases "fst e \<le> b")
      case True
      with below IH show ?thesis by simp
    next
      case False
      with hd have "\<forall>x \<in> set m. \<not> fst x \<le> b"
        by auto
      with below False show ?thesis
        by (simp add: filter_empty_conv)
    qed
  next
    case above: False
    show ?thesis
    proof (cases "fst e \<le> b")
      case True
      have "filter (\<lambda>x. a \<le> fst x \<and> fst x \<le> b) m = filter (\<lambda>x. fst x \<le> b) m"
        using hd above by (intro filter_cong) auto
      also have "\<dots> = takeWhile (\<lambda>x. fst x \<le> b) m"
        using takeWhile_sorted_le [OF tl] by simp
      finally show ?thesis
        using above True by (simp add: takeWhile_eq_take [symmetric])
    next
      case False
      with hd have "\<forall>x \<in> set m. \<not> fst x \<le> b"
        by auto
      with above False show ?thesis
        by (simp add: filter_empty_conv)
    qed
  qed
qed

text \<open>An iterator that starts past \<open>upperIt\<close> never meets it: the loop runs off the map.\<close>

lemma collectDistances_overrun:
  "upperIt < i \<Longrightarrow> collectDistances m i upperIt \<noteq> Inr ds"
proof (induction "length m - i" arbitrary: i ds)
  case 0
  then show ?case
    by (simp add: collectDistances.simps [of m i upperIt])
next
  case (Suc n)
  from Suc.hyps(2) have "n = length m - Suc i"
    by simp
  from Suc.hyps(1) [OF this] Suc.prems show ?case
    by (auto simp: collectDistances.simps [of m i upperIt] split: sum.splits)
qed

lemma collectDistances_Inr:
  "collectDistances m lo hi = Inr ds \<Longrightarrow>
   ds = map (\<lambda>e. distance (snd e)) (drop lo (take hi m))"
proof (induction m lo hi arbitrary: ds rule: collectDistances.induct)
  case (1 m sampleIt upperIt)
  show ?case
  proof (cases "sampleIt = upperIt")
    case True
    with "1.prems" show ?thesis
      by (simp add: collectDistances.simps [of m upperIt upperIt])
  next
    case False
    with "1.prems" have inside: "sampleIt < length m"
      by (simp add: collectDistances.simps [of m sampleIt upperIt] split: if_splits)
    with False "1.prems" obtain ds' where
      rest: "collectDistances m (Suc sampleIt) upperIt = Inr ds'" and
      ds: "ds = distance (snd (m ! sampleIt)) # ds'"
      by (auto simp: collectDistances.simps [of m sampleIt upperIt] split: sum.splits)
    from "1.IH" [OF False _ rest] inside
    have ds': "ds' = map (\<lambda>e. distance (snd e)) (drop (Suc sampleIt) (take upperIt m))"
      by simp
    show ?thesis
    proof (cases "sampleIt < upperIt")
      case True
      with inside have "sampleIt < length (take upperIt m)"
        by simp
      then have "take upperIt m ! sampleIt # drop (Suc sampleIt) (take upperIt m) =
          drop sampleIt (take upperIt m)"
        by (rule Cons_nth_drop_Suc)
      moreover have "take upperIt m ! sampleIt = m ! sampleIt"
        using True by simp
      ultimately have "drop sampleIt (take upperIt m) =
          m ! sampleIt # drop (Suc sampleIt) (take upperIt m)"
        by simp
      with ds ds' show ?thesis
        by simp
    next
      case False
      with \<open>sampleIt \<noteq> upperIt\<close> have past: "upperIt < sampleIt"
        by simp
      from collectDistances_overrun [OF past] "1.prems" show ?thesis
        by simp
    qed
  qed
qed


lemma double_to_int_Inr:
  assumes "double_to_int z = Inr w"
  shows "sint w = z"
proof -
  from assms have r: "- (2 ^ 31) \<le> z" "z < 2 ^ 31" and w: "w = of_int z"
    by (auto simp: double_to_int_def split: if_splits)
  have "sint (word_of_int z :: 32 word) = signed_take_bit (LENGTH(32) - 1) z"
    by (rule sint_sbintrunc')
  also have "\<dots> = z"
    using r by (simp add: signed_take_bit_int_eq_self)
  finally show ?thesis
    by (simp add: w)
qed

text \<open>
  The quantile of a non-empty sorted range, for a fraction between \<open>0\<close> and \<open>1\<close>, is
  the percentile of the spec's words.
\<close>

lemma quantile_interpolated:
  assumes "xs \<noteq> []" and "0 \<le> p" and "p \<le> 1"
  shows "quantile xs p = Some (interpolated (map (\<lambda>x. of_nat (unat x)) xs) p)"
proof -
  define n where "n = length xs"
  define h where "h = p * of_nat (n - 1)"
  have n: "0 < n"
    using assms(1) by (simp add: n_def)
  have h0: "0 \<le> h"
    using assms(2) by (simp add: h_def)
  have h1: "h \<le> of_nat (n - 1)"
    using mult_right_mono [of p 1 "of_nat (n - 1) :: rat"] assms(3) by (simp add: h_def)
  have f0: "0 \<le> \<lfloor>h\<rfloor>"
    using h0 by simp
  have "\<lfloor>h\<rfloor> \<le> \<lfloor>(of_nat (n - 1) :: rat)\<rfloor>"
    using h1 by (rule floor_mono)
  then have f1: "\<lfloor>h\<rfloor> \<le> int (n - 1)"
    by simp
  have lo: "nat \<lfloor>h\<rfloor> < n"
    using f0 f1 n by linarith
  have lo_int: "(of_nat (nat \<lfloor>h\<rfloor>) :: rat) = of_int \<lfloor>h\<rfloor>"
    using f0 by simp
  define ys :: "rat list" where "ys = map (\<lambda>x. of_nat (unat x)) xs"
  have Q: "quantile xs p =
      Some (of_nat (unat (xs ! nat \<lfloor>h\<rfloor>))
            + (h - of_nat (nat \<lfloor>h\<rfloor>))
              * (of_nat (unat (xs ! nat \<lceil>h\<rceil>)) - of_nat (unat (xs ! nat \<lfloor>h\<rfloor>))))"
    using assms(1) by (simp add: quantile_def Let_def h_def n_def)
  have I: "interpolated ys p =
      (if h - of_int \<lfloor>h\<rfloor> = 0 then ys ! nat \<lfloor>h\<rfloor>
       else ys ! nat \<lfloor>h\<rfloor> + (h - of_int \<lfloor>h\<rfloor>) * (ys ! (nat \<lfloor>h\<rfloor> + 1) - ys ! nat \<lfloor>h\<rfloor>))"
    by (simp add: interpolated_def Let_def h_def n_def ys_def)
  have y_lo: "ys ! nat \<lfloor>h\<rfloor> = of_nat (unat (xs ! nat \<lfloor>h\<rfloor>))"
    using lo by (simp add: ys_def n_def)
  have "quantile xs p = Some (interpolated ys p)"
  proof (cases "h = of_int \<lfloor>h\<rfloor>")
    case True
    then have "\<lceil>h\<rceil> = \<lfloor>h\<rfloor>"
      by (simp add: ceiling_altdef)
    moreover from True have "h - of_int \<lfloor>h\<rfloor> = 0"
      by simp
    ultimately show ?thesis
      by (simp only: Q I y_lo if_True) simp
  next
    case False
    then have c: "\<lceil>h\<rceil> = \<lfloor>h\<rfloor> + 1"
      by (simp add: ceiling_altdef)
    have "h < of_nat (n - 1)"
    proof (rule ccontr)
      assume "\<not> h < of_nat (n - 1)"
      with h1 have "h = of_nat (n - 1)" by simp
      then have "h = of_int \<lfloor>h\<rfloor>" by simp
      with False show False by simp
    qed
    then have "\<lfloor>h\<rfloor> < int (n - 1)"
      by (simp add: floor_less_iff)
    then have hi: "nat \<lfloor>h\<rfloor> + 1 < n"
      using f0 by linarith
    have hi_eq: "nat \<lceil>h\<rceil> = nat \<lfloor>h\<rfloor> + 1"
      unfolding c using f0 by linarith
    have y_hi: "ys ! (nat \<lfloor>h\<rfloor> + 1) = of_nat (unat (xs ! (nat \<lfloor>h\<rfloor> + 1)))"
      using hi by (simp add: ys_def n_def)
    have g: "h - of_int \<lfloor>h\<rfloor> \<noteq> 0"
      using False by simp
    show ?thesis
      by (simp only: Q I y_lo y_hi hi_eq lo_int g if_False)
  qed
  then show ?thesis
    by (simp add: ys_def)
qed

lemma window_filter:
  fixes m :: JaccardToDist
  assumes "sorted_wrt (<) (map fst m)"
    and "closestKeys m j bin = (lo, hi)"
  shows "drop lo (take hi m) = filter (\<lambda>e. \<bar>fst e - j\<bar> \<le> bin) m"
proof -
  have "(\<lambda>e :: c_double \<times> DistSample. \<bar>fst e - j\<bar> \<le> bin) =
        (\<lambda>e. j - bin \<le> fst e \<and> fst e \<le> j + bin)"
    by (auto simp: fun_eq_iff abs_le_iff)
  with window_sorted [OF assms(1), of "j - bin" "j + bin"] assms(2) show ?thesis
    by (simp add: closestKeys_def)
qed

text \<open>
  Claim C8. When \<open>estimateDistance\<close> succeeds on a calibration index (a map ordered by
  key), the distances it has collected and sorted are those of exactly the entries whose
  key lies within \<open>\<plusminus>dist_bin_size\<close> of the Jaccard score of the pair; there is at least
  one; \<open>minDist\<close> is the floor of their 1st percentile and \<open>maxDist\<close> the ceiling of their
  99th percentile, by linear interpolation.
\<close>

theorem estimateDistance_percentiles:
  assumes "sorted_wrt (<) (map fst jaccardToDist)"
    and "estimateDistance ndebug rec jaccardToDist params = Inr (est, True)"
  shows "windowDistances rec jaccardToDist params \<noteq> []
     \<and> jaccard est = jaccardScore rec
     \<and> sint (minDist est) =
         \<lfloor>interpolated (map (\<lambda>x. of_nat (unat x)) (windowDistances rec jaccardToDist params))
            (1 / 100)\<rfloor>
     \<and> sint (maxDist est) =
         \<lceil>interpolated (map (\<lambda>x. of_nat (unat x)) (windowDistances rec jaccardToDist params))
            (99 / 100)\<rceil>"
proof -
  obtain lo hi where ck:
    "closestKeys jaccardToDist (jaccardScore rec) (dist_bin_size params) = (lo, hi)"
    by (cases "closestKeys jaccardToDist (jaccardScore rec) (dist_bin_size params)")
  from assms(2) ck obtain ds q1 q99 w1 w99 where
    cd: "collectDistances jaccardToDist lo hi = Inr ds" and
    q1: "quantile (sort ds) (1 / 100) = Some q1" and
    w1: "double_to_int \<lfloor>q1\<rfloor> = Inr w1" and
    q99: "quantile (sort ds) (99 / 100) = Some q99" and
    w99: "double_to_int \<lceil>q99\<rceil> = Inr w99" and
    est: "est = DistanceEstimate_init\<lparr>jaccard := jaccardScore rec, minDist := w1, maxDist := w99\<rparr>"
    by (auto simp: estimateDistance_def Let_def
        split: if_splits sum.splits option.splits)
  have "ds = map (\<lambda>e. distance (snd e)) (drop lo (take hi jaccardToDist))"
    using cd by (rule collectDistances_Inr)
  then have sd: "sort ds = windowDistances rec jaccardToDist params"
    by (simp add: windowDistances_def window_filter [OF assms(1) ck])
  from q1 have ne: "sort ds \<noteq> []"
    by (auto simp: quantile_def split: if_splits)
  have "quantile (sort ds) (1 / 100) =
      Some (interpolated (map (\<lambda>x. of_nat (unat x)) (sort ds)) (1 / 100))"
    using ne by (rule quantile_interpolated) simp_all
  with q1 have v1: "q1 = interpolated (map (\<lambda>x. of_nat (unat x)) (sort ds)) (1 / 100)"
    by simp
  have "quantile (sort ds) (99 / 100) =
      Some (interpolated (map (\<lambda>x. of_nat (unat x)) (sort ds)) (99 / 100))"
    using ne by (rule quantile_interpolated) simp_all
  with q99 have v99: "q99 = interpolated (map (\<lambda>x. of_nat (unat x)) (sort ds)) (99 / 100)"
    by simp
  from double_to_int_Inr [OF w1] double_to_int_Inr [OF w99] ne
  show ?thesis
    by (simp add: est v1 v99 sd [symmetric])
qed

lemma calibration_estimate:
  "estimateDistance False halfShared calibration scenarioParams =
     Inr (\<lparr>minDist = 80, maxDist = 478, jaccard = 1 / 2\<rparr>, True)"
  by code_simp

theorem estimateDistance_percentiles_witness:
  "estimateDistance False halfShared calibration scenarioParams =
     Inr (\<lparr>minDist = 80, maxDist = 478, jaccard = 1 / 2\<rparr>, True)
   \<and> windowDistances halfShared calibration scenarioParams \<noteq> []
   \<and> sint (80 :: c_int) =
       \<lfloor>interpolated (map (\<lambda>x. of_nat (unat x))
          (windowDistances halfShared calibration scenarioParams)) (1 / 100)\<rfloor>
   \<and> sint (478 :: c_int) =
       \<lceil>interpolated (map (\<lambda>x. of_nat (unat x))
          (windowDistances halfShared calibration scenarioParams)) (99 / 100)\<rceil>"
proof -
  have h1: "sorted_wrt (<) (map fst calibration)"
    by (simp add: calibration_def)
  from estimateDistance_percentiles [OF h1 calibration_estimate] calibration_estimate
  show ?thesis
    by simp
qed

end
